theory Spec2Isabelle
  imports Main "HOL-Library.Word" "HOL-Library.AList" "HOL-Library.Multiset"
begin

section \<open>DNS messages\<close>

text \<open>
  The two proxies work on the message type of the DNS codec they import. A message is a
  header, a question section and three sections of resource records. The codec decodes a
  record of type 41 as an OPT record and nothing else as one, so the test
  \<^verbatim>\<open>r.Header().Rrtype == dns.TypeOPT\<close> of the source is the test on the constructor here.
  An EDNS0 option is kept as its code and its data octets; names and record data are kept
  as the octets of their encoding.
\<close>

type_synonym byte = "8 word"

datatype edns0 = EDNS0_LOCAL (Code: "16 word") (Data: "byte list")

record rr_header =
  Name :: "byte list"
  Rrtype :: "16 word"
  Class :: "16 word"
  Ttl :: "32 word"

datatype rr =
    OPT rr_header "edns0 list"
  | RR rr_header "byte list"

record question =
  QName :: "byte list"
  Qtype :: "16 word"
  Qclass :: "16 word"

record msg_hdr =
  MsgId :: "16 word"
  Response :: bool
  Opcode :: int
  Authoritative :: bool
  Truncated :: bool
  RecursionDesired :: bool
  RecursionAvailable :: bool
  Zero :: bool
  AuthenticatedData :: bool
  CheckingDisabled :: bool
  Rcode :: int

record msg =
  MsgHdr :: msg_hdr
  Compress :: bool
  Question :: "question list"
  Answer :: "rr list"
  Ns :: "rr list"
  Extra :: "rr list"

definition TypeOPT :: "16 word" where
  "TypeOPT = 41"

definition EDNS0LOCALSTART :: "16 word" where
  "EDNS0LOCALSTART = 65001"

definition CAP_CODE :: "16 word" where
  "CAP_CODE = EDNS0LOCALSTART"

definition FRAG_CODE :: "16 word" where
  "FRAG_CODE = EDNS0LOCALSTART + 1"

definition RcodeServerFailure :: int where
  "RcodeServerFailure = 2"

fun is_OPT :: "rr \<Rightarrow> bool" where
  "is_OPT (OPT h os) = True"
| "is_OPT (RR h d) = False"

text \<open>
  \<^verbatim>\<open>IsEdns0\<close> of the codec scans the additional section from its end and returns the
  first OPT record it meets, which is the last OPT record of the section; \<open>None\<close> is the
  nil pointer. \<^verbatim>\<open>UDPSize\<close> of an OPT record is the class field of its header.
\<close>

fun last_OPT :: "rr list \<Rightarrow> (rr_header \<times> edns0 list) option" where
  "last_OPT [] = None"
| "last_OPT (r # rs) =
     (case last_OPT rs of
        Some e \<Rightarrow> Some e
      | None \<Rightarrow> (case r of OPT h os \<Rightarrow> Some (h, os) | RR h d \<Rightarrow> None))"

definition IsEdns0 :: "msg \<Rightarrow> (rr_header \<times> edns0 list) option" where
  "IsEdns0 m = last_OPT (Extra m)"

text \<open>
  \<^verbatim>\<open>SetEdns0\<close> of the codec appends a new OPT record, with the root name, the given size
  and no option, to the additional section.
\<close>

definition SetEdns0 :: "msg \<Rightarrow> 16 word \<Rightarrow> bool \<Rightarrow> msg" where
  "SetEdns0 m udpsize do_bit =
     m\<lparr>Extra := Extra m @ [OPT \<lparr>Name = [0], Rrtype = TypeOPT, Class = udpsize,
                                   Ttl = (if do_bit then 32768 else 0)\<rparr> []]\<rparr>"

definition UDPSize :: "rr_header \<Rightarrow> nat" where
  "UDPSize h = unat (Class h)"

text \<open>
  \<^verbatim>\<open>new(dns.Msg)\<close> followed by \<^verbatim>\<open>SetRcode\<close> of the codec: a reply to the request with
  the given response code. It takes the identifier, the opcode and the first question of
  the request, and for a standard query the RD and CD bits; it has no records.
\<close>

definition new_Msg :: msg where
  "new_Msg = \<lparr>MsgHdr = \<lparr>MsgId = 0, Response = False, Opcode = 0, Authoritative = False,
                         Truncated = False, RecursionDesired = False,
                         RecursionAvailable = False, Zero = False,
                         AuthenticatedData = False, CheckingDisabled = False, Rcode = 0\<rparr>,
              Compress = False, Question = [], Answer = [], Ns = [], Extra = []\<rparr>"

definition SetReply :: "msg \<Rightarrow> msg \<Rightarrow> msg" where
  "SetReply m request =
     m\<lparr>MsgHdr := (MsgHdr m)\<lparr>
          MsgId := MsgId (MsgHdr request),
          Response := True,
          Opcode := Opcode (MsgHdr request),
          RecursionDesired :=
            (if Opcode (MsgHdr request) = 0 then RecursionDesired (MsgHdr request)
             else RecursionDesired (MsgHdr m)),
          CheckingDisabled :=
            (if Opcode (MsgHdr request) = 0 then CheckingDisabled (MsgHdr request)
             else CheckingDisabled (MsgHdr m)),
          Rcode := 0\<rparr>,
       Question := (case Question request of [] \<Rightarrow> Question m | q # qs \<Rightarrow> [q])\<rparr>"

definition SetRcode :: "msg \<Rightarrow> msg \<Rightarrow> int \<Rightarrow> msg" where
  "SetRcode m request rcode =
     (SetReply m request)\<lparr>MsgHdr := (MsgHdr (SetReply m request))\<lparr>Rcode := rcode\<rparr>\<rparr>"

text \<open>
  \<^verbatim>\<open>SRVFAIL\<close>, the same in both proxies: the message it writes to the client.
\<close>

definition SRVFAIL :: "msg \<Rightarrow> msg" where
  "SRVFAIL req = SetRcode new_Msg req RcodeServerFailure"

text \<open>
  The encoded length of a message, in octets of its uncompressed encoding: twelve octets
  of header, each question with four octets after its name, each record with ten octets
  after its name and then its data, each EDNS0 option with four octets before its data.
  This is the number of octets on the wire. It is not the \<^verbatim>\<open>Len\<close> of the codec, which
  the handlers call and which is a parameter below: the codec computes an estimate that
  can exceed the encoded length (it counts the text of a string with its escapes). Where a
  statement is about octets, what it needs of the codec's \<^verbatim>\<open>Len\<close> is a hypothesis
  of it.
\<close>

fun rr_len :: "rr \<Rightarrow> nat" where
  "rr_len (OPT h os) = length (Name h) + 10 + sum_list (map (\<lambda>opt. 4 + length (Data opt)) os)"
| "rr_len (RR h d) = length (Name h) + 10 + length d"

definition wire_len :: "msg \<Rightarrow> nat" where
  "wire_len m =
     12 + sum_list (map (\<lambda>q. length (QName q) + 4) (Question m))
     + sum_list (map rr_len (Answer m))
     + sum_list (map rr_len (Ns m))
     + sum_list (map rr_len (Extra m))"

section \<open>The fragmenter of the server proxy\<close>

text \<open>
  The first loop of \<^verbatim>\<open>frag\<close>: the first OPT record of the copied additional section is
  saved and taken out of the copy.
\<close>

fun remove_edns0 :: "rr list \<Rightarrow> rr option \<times> rr list" where
  "remove_edns0 [] = (None, [])"
| "remove_edns0 (r # rs) =
     (if is_OPT r then (Some r, rs)
      else (case remove_edns0 rs of (e, rs') \<Rightarrow> (e, r # rs')))"

definition local_opt :: edns0 where
  "local_opt = EDNS0_LOCAL FRAG_CODE [0, 0]"

text \<open>
  A new fragment: the reply with its three sections emptied, and in the additional
  section a copy of the saved OPT record with the placeholder option appended. The copy
  (\<^verbatim>\<open>dns.Copy\<close>) is a copy of the record with its options, so no two fragments share
  an option.
\<close>

definition new_frag :: "msg \<Rightarrow> rr_header \<Rightarrow> edns0 list \<Rightarrow> msg" where
  "new_frag reply h os =
     reply\<lparr>Answer := [], Ns := [], Extra := [OPT h (os @ [local_opt])]\<rparr>"

text \<open>
  The three filling loops. \<open>Len\<close> is the \<^verbatim>\<open>Len\<close> of the codec; the codec is not part
  of the repository, so the function is a parameter.
\<close>

fun fill_answer :: "(msg \<Rightarrow> nat) \<Rightarrow> msg \<Rightarrow> rr list \<Rightarrow> msg \<times> rr list" where
  "fill_answer Len frg [] = (frg, [])"
| "fill_answer Len frg (r # rest) =
     (if Len (frg\<lparr>Answer := Answer frg @ [r]\<rparr>) \<le> 512
      then fill_answer Len (frg\<lparr>Answer := Answer frg @ [r]\<rparr>) rest
      else (frg, r # rest))"

fun fill_ns :: "(msg \<Rightarrow> nat) \<Rightarrow> msg \<Rightarrow> rr list \<Rightarrow> msg \<times> rr list" where
  "fill_ns Len frg [] = (frg, [])"
| "fill_ns Len frg (r # rest) =
     (if Len (frg\<lparr>Ns := Ns frg @ [r]\<rparr>) \<le> 512
      then fill_ns Len (frg\<lparr>Ns := Ns frg @ [r]\<rparr>) rest
      else (frg, r # rest))"

fun fill_extra :: "(msg \<Rightarrow> nat) \<Rightarrow> msg \<Rightarrow> rr list \<Rightarrow> msg \<times> rr list" where
  "fill_extra Len frg [] = (frg, [])"
| "fill_extra Len frg (r # rest) =
     (if Len (frg\<lparr>Extra := Extra frg @ [r]\<rparr>) \<le> 512
      then fill_extra Len (frg\<lparr>Extra := Extra frg @ [r]\<rparr>) rest
      else (frg, r # rest))"

text \<open>One pass of the body of the outer loop, up to the test for an empty fragment.\<close>

definition fill_frag ::
  "(msg \<Rightarrow> nat) \<Rightarrow> msg \<Rightarrow> rr list \<Rightarrow> rr list \<Rightarrow> rr list \<Rightarrow> msg \<times> rr list \<times> rr list \<times> rr list" where
  "fill_frag Len frg ra rn re =
     (case fill_answer Len frg ra of (f1, ra') \<Rightarrow>
      case fill_ns Len f1 rn of (f2, rn') \<Rightarrow>
      case fill_extra Len f2 re of (f3, re') \<Rightarrow> (f3, ra', rn', re'))"

definition truncated_reply :: "msg \<Rightarrow> msg" where
  "truncated_reply frg = frg\<lparr>MsgHdr := (MsgHdr frg)\<lparr>Truncated := True\<rparr>, Extra := []\<rparr>"

text \<open>
  The outer loop leaves either by the \<^verbatim>\<open>return\<close> of the single truncated message or by
  the \<^verbatim>\<open>break\<close> that leads to the fix-up.
\<close>

datatype loop_exit = Return "msg list" | Break "msg list"

lemma fill_answer_shape:
  "fill_answer Len frg ra = (f', ra') \<Longrightarrow>
     \<exists>taken. ra = taken @ ra' \<and> f' = frg\<lparr>Answer := Answer frg @ taken\<rparr>"
proof (induction ra arbitrary: frg)
  case Nil
  then show ?case by simp
next
  case (Cons r rest)
  show ?case
  proof (cases "Len (frg\<lparr>Answer := Answer frg @ [r]\<rparr>) \<le> 512")
    case True
    with Cons.prems have "fill_answer Len (frg\<lparr>Answer := Answer frg @ [r]\<rparr>) rest = (f', ra')"
      by simp
    from Cons.IH[OF this] obtain taken where
      "rest = taken @ ra'" "f' = frg\<lparr>Answer := Answer frg @ r # taken\<rparr>"
      by auto
    then show ?thesis by (intro exI[of _ "r # taken"]) simp
  next
    case False
    with Cons.prems show ?thesis by (intro exI[of _ "[]"]) auto
  qed
qed

lemma fill_ns_shape:
  "fill_ns Len frg rn = (f', rn') \<Longrightarrow>
     \<exists>taken. rn = taken @ rn' \<and> f' = frg\<lparr>Ns := Ns frg @ taken\<rparr>"
proof (induction rn arbitrary: frg)
  case Nil
  then show ?case by simp
next
  case (Cons r rest)
  show ?case
  proof (cases "Len (frg\<lparr>Ns := Ns frg @ [r]\<rparr>) \<le> 512")
    case True
    with Cons.prems have "fill_ns Len (frg\<lparr>Ns := Ns frg @ [r]\<rparr>) rest = (f', rn')"
      by simp
    from Cons.IH[OF this] obtain taken where
      "rest = taken @ rn'" "f' = frg\<lparr>Ns := Ns frg @ r # taken\<rparr>"
      by auto
    then show ?thesis by (intro exI[of _ "r # taken"]) simp
  next
    case False
    with Cons.prems show ?thesis by (intro exI[of _ "[]"]) auto
  qed
qed

lemma fill_extra_shape:
  "fill_extra Len frg re = (f', re') \<Longrightarrow>
     \<exists>taken. re = taken @ re' \<and> f' = frg\<lparr>Extra := Extra frg @ taken\<rparr>"
proof (induction re arbitrary: frg)
  case Nil
  then show ?case by simp
next
  case (Cons r rest)
  show ?case
  proof (cases "Len (frg\<lparr>Extra := Extra frg @ [r]\<rparr>) \<le> 512")
    case True
    with Cons.prems have "fill_extra Len (frg\<lparr>Extra := Extra frg @ [r]\<rparr>) rest = (f', re')"
      by simp
    from Cons.IH[OF this] obtain taken where
      "rest = taken @ re'" "f' = frg\<lparr>Extra := Extra frg @ r # taken\<rparr>"
      by auto
    then show ?thesis by (intro exI[of _ "r # taken"]) simp
  next
    case False
    with Cons.prems show ?thesis by (intro exI[of _ "[]"]) auto
  qed
qed

text \<open>
  What one pass does: it moves a prefix of each queue into the matching section of the
  new fragment and leaves the header, the question section and the OPT copy alone.
\<close>

lemma fill_frag_shape:
  assumes "fill_frag Len (new_frag reply h os) ra rn re = (frg, ra', rn', re')"
  shows "\<exists>ta tn te. ra = ta @ ra' \<and> rn = tn @ rn' \<and> re = te @ re'
           \<and> frg = reply\<lparr>Answer := ta, Ns := tn,
                             Extra := OPT h (os @ [local_opt]) # te\<rparr>"
proof -
  obtain f1 f2 where a: "fill_answer Len (new_frag reply h os) ra = (f1, ra')"
    and n: "fill_ns Len f1 rn = (f2, rn')"
    and e: "fill_extra Len f2 re = (frg, re')"
    using assms by (auto simp: fill_frag_def split: prod.splits)
  from fill_answer_shape[OF a] obtain ta where
    ta: "ra = ta @ ra'" "f1 = (new_frag reply h os)\<lparr>Answer := ta\<rparr>"
    by (auto simp: new_frag_def)
  from fill_ns_shape[OF n] obtain tn where
    tn: "rn = tn @ rn'" "f2 = f1\<lparr>Ns := Ns f1 @ tn\<rparr>"
    by auto
  from fill_extra_shape[OF e] obtain te where
    te: "re = te @ re'" "frg = f2\<lparr>Extra := Extra f2 @ te\<rparr>"
    by auto
  have "frg = reply\<lparr>Answer := ta, Ns := tn, Extra := OPT h (os @ [local_opt]) # te\<rparr>"
    using ta(2) tn(2) te(2) by (simp add: new_frag_def)
  with ta(1) tn(1) te(1) show ?thesis by blast
qed

lemma fill_frag_progress:
  assumes ff: "fill_frag Len (new_frag reply h os) ra rn re = (frg, ra', rn', re')"
    and np: "\<not> (Answer frg = [] \<and> Ns frg = [] \<and> length (Extra frg) = 1)"
  shows "length ra' + length rn' + length re' < length ra + length rn + length re"
proof -
  from fill_frag_shape[OF ff] obtain ta tn te where
    s: "ra = ta @ ra'" "rn = tn @ rn'" "re = te @ re'"
       "frg = reply\<lparr>Answer := ta, Ns := tn, Extra := OPT h (os @ [local_opt]) # te\<rparr>"
    by blast
  from np s(4) have "ta \<noteq> [] \<or> tn \<noteq> [] \<or> te \<noteq> []" by auto
  then have "0 < length ta + length tn + length te" by auto
  with s(1,2,3) show ?thesis by simp
qed

function frag_loop ::
  "(msg \<Rightarrow> nat) \<Rightarrow> msg \<Rightarrow> rr_header \<Rightarrow> edns0 list \<Rightarrow> rr list \<Rightarrow> rr list \<Rightarrow> rr list
     \<Rightarrow> msg list \<Rightarrow> loop_exit" where
  "frag_loop Len reply h os ra rn re all_frags =
     (case fill_frag Len (new_frag reply h os) ra rn re of (frg, ra', rn', re') \<Rightarrow>
        if Answer frg = [] \<and> Ns frg = [] \<and> length (Extra frg) = 1
        then Return [truncated_reply frg]
        else if ra' = [] \<and> rn' = [] \<and> re' = []
        then Break (all_frags @ [frg])
        else frag_loop Len reply h os ra' rn' re' (all_frags @ [frg]))"
  by pat_completeness auto
termination
  apply (relation "measure (\<lambda>(Len, reply, h, os, ra, rn, re, all_frags).
                   length ra + length rn + length re)")
   apply simp
  subgoal premises p for Len reply h os ra rn re all_frags x y xa ya xb yb
  proof -
    have "fill_frag Len (new_frag reply h os) ra rn re = (x, xa, xb, yb)"
      using p(1,2,3) by simp
    from fill_frag_progress[OF this p(4)] show ?thesis by simp
  qed
  done

declare frag_loop.simps [simp del]

text \<open>
  The fix-up loop. In each fragment it takes the OPT record that \<^verbatim>\<open>IsEdns0\<close> finds,
  the last one of the additional section, and overwrites the data of every option of that
  record whose code is the fragment code. The octets are \<^verbatim>\<open>byte(len(all_frags))\<close> and
  \<^verbatim>\<open>byte(n)\<close>: the conversion keeps the low eight bits. \<open>None\<close> is the panic of the
  source (a nil record, or a failed type assertion).
\<close>

definition fix_option :: "byte \<Rightarrow> byte \<Rightarrow> edns0 \<Rightarrow> edns0" where
  "fix_option k n opt =
     (if Code opt = FRAG_CODE then EDNS0_LOCAL (Code opt) [k, n] else opt)"

fun fix_last_opt :: "byte \<Rightarrow> byte \<Rightarrow> rr list \<Rightarrow> rr list option" where
  "fix_last_opt k n [] = None"
| "fix_last_opt k n (r # rs) =
     (case fix_last_opt k n rs of
        Some rs' \<Rightarrow> Some (r # rs')
      | None \<Rightarrow>
          (case r of
             OPT h os \<Rightarrow> Some (OPT h (map (fix_option k n) os) # rs)
           | RR h d \<Rightarrow> None))"

definition fixup_frag :: "nat \<Rightarrow> nat \<Rightarrow> msg \<Rightarrow> msg option" where
  "fixup_frag k n frg =
     map_option (\<lambda>e. frg\<lparr>Extra := e\<rparr>) (fix_last_opt (of_nat k) (of_nat n) (Extra frg))"

fun fixup :: "nat \<Rightarrow> nat \<Rightarrow> msg list \<Rightarrow> msg list option" where
  "fixup k n [] = Some []"
| "fixup k n (frg # frgs) =
     (case fixup_frag k n frg of
        None \<Rightarrow> None
      | Some frg' \<Rightarrow> map_option ((#) frg') (fixup k (Suc n) frgs))"

text \<open>
  \<^verbatim>\<open>frag\<close>. It copies the three sections of the reply first. To a reply without an OPT
  record it then adds one with \<^verbatim>\<open>SetEdns0\<close>, as its comment says (``if we don't have
  EDNS0 in the packet, add it now''); but the loop that looks for the OPT record runs over
  the copy made before, does not find the new record, and \<^verbatim>\<open>frag\<close> returns no message.
\<close>

definition frag :: "(msg \<Rightarrow> nat) \<Rightarrow> msg \<Rightarrow> msg list option" where
  "frag Len reply0 =
     (let remaining_answer = Answer reply0;
          remaining_ns = Ns reply0;
          copied_extra = Extra reply0;
          reply = (case IsEdns0 reply0 of
                     None \<Rightarrow> SetEdns0 reply0 512 False
                   | Some e \<Rightarrow> reply0)
      in case remove_edns0 copied_extra of
           (None, remaining_extra) \<Rightarrow> Some []
         | (Some (RR h d), remaining_extra) \<Rightarrow> None
         | (Some (OPT h os), remaining_extra) \<Rightarrow>
             (case frag_loop Len reply h os remaining_answer remaining_ns remaining_extra [] of
                Return ms \<Rightarrow> Some ms
              | Break all_frags \<Rightarrow> fixup (length all_frags) 0 all_frags))"

section \<open>The server proxy\<close>

text \<open>
  The handler looks for the capability option in the OPT record that \<^verbatim>\<open>IsEdns0\<close> finds
  in the query (the last one of the additional section), removes the first such option
  and raises the advertised size of that record. It then exchanges the query with the backend
  (\<open>Exchange\<close>, \<open>None\<close> for an error) and writes messages to the client. The result is
  the list of the messages written, \<open>None\<close> when the handler panics.
\<close>

fun remove_cap :: "edns0 list \<Rightarrow> bool \<times> edns0 list" where
  "remove_cap [] = (False, [])"
| "remove_cap (e # es) =
     (if Code e = EDNS0LOCALSTART then (True, es)
      else (case remove_cap es of (b, es') \<Rightarrow> (b, e # es')))"

fun consume_last :: "rr list \<Rightarrow> (bool \<times> rr list) option" where
  "consume_last [] = None"
| "consume_last (r # rs) =
     (case consume_last rs of
        Some (b, rs') \<Rightarrow> Some (b, r # rs')
      | None \<Rightarrow>
          (case r of
             OPT h os \<Rightarrow>
               (case remove_cap os of
                  (True, os') \<Rightarrow> Some (True, OPT (h\<lparr>Class := 65535\<rparr>) os' # rs)
                | (False, os') \<Rightarrow> Some (False, OPT h os # rs))
           | RR h d \<Rightarrow> None))"

definition consume_opt :: "rr list \<Rightarrow> bool \<times> rr list" where
  "consume_opt rs = (case consume_last rs of None \<Rightarrow> (False, rs) | Some p \<Rightarrow> p)"

definition ServerProxy_ServeDNS ::
  "(msg \<Rightarrow> nat) \<Rightarrow> (msg \<Rightarrow> msg option) \<Rightarrow> msg \<Rightarrow> msg list option" where
  "ServerProxy_ServeDNS Len Exchange request =
     (case consume_opt (Extra request) of (client_supports_appfrag, extra') \<Rightarrow>
        (case Exchange (request\<lparr>Extra := extra'\<rparr>) of
           None \<Rightarrow> Some [SRVFAIL (request\<lparr>Extra := extra'\<rparr>)]
         | Some response \<Rightarrow>
             if \<not> client_supports_appfrag then Some [response]
             else frag Len response))"

section \<open>The client proxy\<close>

text \<open>
  The upstream connection is the list of the outcomes of its successive reads, \<open>None\<close>
  for a read that fails; a read from the exhausted list fails too (the deadline passes).
  \<^verbatim>\<open>wait_for_response\<close> returns the first message with the identifier of the request and
  what is left to read. When it returns nil it has written \<^verbatim>\<open>SRVFAIL\<close> to the client.
\<close>

fun wait_for_response :: "msg \<Rightarrow> msg option list \<Rightarrow> msg option \<times> msg option list" where
  "wait_for_response request [] = (None, [])"
| "wait_for_response request (None # rest) = (None, rest)"
| "wait_for_response request (Some response # rest) =
     (if MsgId (MsgHdr response) = MsgId (MsgHdr request) then (Some response, rest)
      else wait_for_response request rest)"

text \<open>
  \<^verbatim>\<open>get_fragment_info\<close>: \<open>None\<close> is the index-out-of-range panic of \<^verbatim>\<open>Data[0]\<close> or
  \<^verbatim>\<open>Data[1]\<close>.
\<close>

fun scan_options :: "edns0 list \<Rightarrow> (int \<times> int) option" where
  "scan_options [] = Some (- 1, - 1)"
| "scan_options (opt # opts) =
     (if Code opt = EDNS0LOCALSTART + 1
      then (case Data opt of
              d0 # d1 # ds \<Rightarrow> Some (uint d0, uint d1)
            | _ \<Rightarrow> None)
      else scan_options opts)"

definition get_fragment_info :: "msg \<Rightarrow> (int \<times> int) option" where
  "get_fragment_info m =
     (case IsEdns0 m of
        None \<Rightarrow> Some (- 1, - 1)
      | Some (h, os) \<Rightarrow> scan_options os)"

definition client_buf_size :: "msg \<Rightarrow> nat" where
  "client_buf_size request =
     (case IsEdns0 request of None \<Rightarrow> 512 | Some (h, os) \<Rightarrow> UDPSize h)"

text \<open>
  The map of the fragments received is an association list with distinct keys; its
  \<^verbatim>\<open>len\<close> is the length of the list. The collecting loop ends with the map, with a
  failed read or with a panic.
\<close>

datatype collected = Panicked | ReadFailed | Frags "(int \<times> msg) list"

lemma wait_for_response_shorter:
  "wait_for_response request rds = (Some response, rest) \<Longrightarrow> length rest < length rds"
proof (induction request rds rule: wait_for_response.induct)
  case (3 request response' rest')
  then show ?case by (auto split: if_splits)
qed simp_all

function collect :: "msg \<Rightarrow> int \<Rightarrow> (int \<times> msg) list \<Rightarrow> msg option list \<Rightarrow> collected" where
  "collect request num_frags frags rds =
     (if int (length frags) < num_frags
      then (case wait_for_response request rds of
              (None, rest) \<Rightarrow> ReadFailed
            | (Some response, rest) \<Rightarrow>
                (case get_fragment_info response of
                   None \<Rightarrow> Panicked
                 | Some (n, sequence_num) \<Rightarrow>
                     collect request num_frags (AList.update sequence_num response frags) rest))
      else Frags frags)"
  by pat_completeness auto
termination
  apply (relation "measure (\<lambda>(request, num_frags, frags, rds). length rds)")
   apply simp
  apply (auto dest: wait_for_response_shorter[OF sym])
  done

declare collect.simps [simp del]

text \<open>The rebuilding loop; \<open>None\<close> is a missing fragment.\<close>

definition append_frag :: "msg \<Rightarrow> msg \<Rightarrow> msg" where
  "append_frag rebuilt_reply frg =
     rebuilt_reply\<lparr>Answer := Answer rebuilt_reply @ Answer frg,
                   Ns := Ns rebuilt_reply @ Ns frg,
                   Extra := Extra rebuilt_reply @ filter (\<lambda>r. \<not> is_OPT r) (Extra frg)\<rparr>"

fun rebuild_loop :: "(int \<times> msg) list \<Rightarrow> int list \<Rightarrow> msg \<Rightarrow> msg option" where
  "rebuild_loop frags [] rebuilt_reply = Some rebuilt_reply"
| "rebuild_loop frags (n # ns) rebuilt_reply =
     (case map_of frags n of
        None \<Rightarrow> None
      | Some frg \<Rightarrow> rebuild_loop frags ns (append_frag rebuilt_reply frg))"

definition rebuild :: "(int \<times> msg) list \<Rightarrow> int \<Rightarrow> msg option" where
  "rebuild frags num_frags =
     (case map_of frags 0 of
        None \<Rightarrow> None
      | Some rebuilt_reply \<Rightarrow> rebuild_loop frags [1..num_frags - 1] rebuilt_reply)"

text \<open>
  The handler from its first read to the end of the rebuilding loop: it panics, or gives
  up with \<^verbatim>\<open>SRVFAIL\<close>, or passes the first response on as it is, or has a rebuilt reply.
\<close>

datatype gathered = Panic | Failure | Verbatim msg | Rebuilt msg

definition reassemble :: "msg \<Rightarrow> msg option list \<Rightarrow> gathered" where
  "reassemble request rds =
     (case wait_for_response request rds of
        (None, rest) \<Rightarrow> Failure
      | (Some response, rest) \<Rightarrow>
          (case get_fragment_info response of
             None \<Rightarrow> Panic
           | Some (num_frags, sequence_num) \<Rightarrow>
               if num_frags = - 1 then Verbatim response
               else (case collect request num_frags [(sequence_num, response)] rest of
                       Panicked \<Rightarrow> Panic
                     | ReadFailed \<Rightarrow> Failure
                     | Frags frags \<Rightarrow>
                         (case rebuild frags num_frags of
                            None \<Rightarrow> Failure
                          | Some rebuilt_reply \<Rightarrow> Rebuilt rebuilt_reply))))"

definition tc_empty :: "msg \<Rightarrow> msg" where
  "tc_empty m = m\<lparr>MsgHdr := (MsgHdr m)\<lparr>Truncated := True\<rparr>, Answer := [], Ns := [], Extra := []\<rparr>"

definition enforce_buf :: "(msg \<Rightarrow> nat) \<Rightarrow> nat \<Rightarrow> msg \<Rightarrow> msg" where
  "enforce_buf Len buf rebuilt_reply =
     (if Len rebuilt_reply > buf then tc_empty rebuilt_reply else rebuilt_reply)"

record upstream =
  dial_ok :: bool
  write_ok :: bool
  reads :: "msg option list"

text \<open>
  The handler of the client proxy. The result is the list of the messages written to the
  client, \<open>None\<close> when the handler panics.
\<close>

definition ClientProxy_ServeDNS :: "(msg \<Rightarrow> nat) \<Rightarrow> msg \<Rightarrow> upstream \<Rightarrow> msg list option" where
  "ClientProxy_ServeDNS Len request up =
     (if \<not> dial_ok up then Some [SRVFAIL request]
      else if \<not> write_ok up then Some [SRVFAIL request]
      else (case reassemble request (reads up) of
              Panic \<Rightarrow> None
            | Failure \<Rightarrow> Some [SRVFAIL request]
            | Verbatim response \<Rightarrow> Some [response]
            | Rebuilt rebuilt_reply \<Rightarrow>
                Some [enforce_buf Len (client_buf_size request) rebuilt_reply]))"

section \<open>Notions for the statements\<close>

text \<open>
  The first option with the fragment code in the OPT record that \<^verbatim>\<open>IsEdns0\<close> finds in
  a message, which is the option \<^verbatim>\<open>get_fragment_info\<close> reads.
\<close>

definition frag_option :: "msg \<Rightarrow> edns0 option" where
  "frag_option m =
     (case IsEdns0 m of
        None \<Rightarrow> None
      | Some (h, os) \<Rightarrow> find (\<lambda>opt. Code opt = FRAG_CODE) os)"

text \<open>
  The messages of a list of fragments before the fix-up: each is the reply with other
  sections, its additional section starting with the OPT copy, and each passed the
  length test.
\<close>

definition frag_of :: "(msg \<Rightarrow> nat) \<Rightarrow> msg \<Rightarrow> rr_header \<Rightarrow> edns0 list \<Rightarrow> msg \<Rightarrow> bool" where
  "frag_of Len reply h os f =
     (f = reply\<lparr>Answer := Answer f, Ns := Ns f,
                 Extra := OPT h (os @ [local_opt]) # tl (Extra f)\<rparr>
      \<and> Len f \<le> 512)"

text \<open>
  Fragment \<open>n\<close> of \<open>k\<close> after the fix-up, for a fragment whose only OPT record is the
  copy at the head of its additional section: the copy has the two octets in every option
  with the fragment code, and nothing else has changed.
\<close>

definition stamp :: "rr_header \<Rightarrow> edns0 list \<Rightarrow> nat \<Rightarrow> nat \<Rightarrow> msg \<Rightarrow> msg" where
  "stamp h os k n f =
     f\<lparr>Extra := OPT h (map (fix_option (of_nat k) (of_nat n)) (os @ [local_opt]))
                 # tl (Extra f)\<rparr>"

text \<open>
  The states of the outer loop of \<^verbatim>\<open>frag\<close>: the three queues at the start of a pass.
  The loop goes from one state to the next when the pass took a record and left one.
\<close>

inductive frag_reach ::
  "(msg \<Rightarrow> nat) \<Rightarrow> msg \<Rightarrow> rr_header \<Rightarrow> edns0 list
     \<Rightarrow> rr list \<times> rr list \<times> rr list \<Rightarrow> rr list \<times> rr list \<times> rr list \<Rightarrow> bool"
  for Len reply h os s where
  start: "frag_reach Len reply h os s s"
| pass: "frag_reach Len reply h os s (ra, rn, re) \<Longrightarrow>
         fill_frag Len (new_frag reply h os) ra rn re = (frg, ra', rn', re') \<Longrightarrow>
         \<not> (Answer frg = [] \<and> Ns frg = [] \<and> length (Extra frg) = 1) \<Longrightarrow>
         \<not> (ra' = [] \<and> rn' = [] \<and> re' = []) \<Longrightarrow>
         frag_reach Len reply h os s (ra', rn', re')"

text \<open>
  The next record, the head of the first queue that is not empty, does not pass the
  length test in a fragment that holds the OPT copy only.
\<close>

definition next_overflows ::
  "(msg \<Rightarrow> nat) \<Rightarrow> msg \<Rightarrow> rr_header \<Rightarrow> edns0 list \<Rightarrow> rr list \<Rightarrow> rr list \<Rightarrow> rr list \<Rightarrow> bool" where
  "next_overflows Len reply h os ra rn re =
     (case ra of
        r # rs \<Rightarrow> 512 < Len ((new_frag reply h os)\<lparr>Answer := [r]\<rparr>)
      | [] \<Rightarrow>
         (case rn of
            r # rs \<Rightarrow> 512 < Len ((new_frag reply h os)\<lparr>Ns := [r]\<rparr>)
          | [] \<Rightarrow>
             (case re of
                r # rs \<Rightarrow> 512 < Len ((new_frag reply h os)\<lparr>Extra := [OPT h (os @ [local_opt]), r]\<rparr>)
              | [] \<Rightarrow> False)))"

text \<open>The sequence number that the client proxy reads from a response.\<close>

definition seq_of :: "msg \<Rightarrow> int" where
  "seq_of m = (case get_fragment_info m of None \<Rightarrow> - 1 | Some (n, s) \<Rightarrow> s)"

section \<open>Concrete messages\<close>

text \<open>
  Messages on which the definitions are run below: a query with the identifier 4660, a
  record with \<open>n\<close> data octets (13 + \<open>n\<close> octets encoded), a fragment with a given
  descriptor, and replies of the backend. Where a run needs a length function for the
  \<^verbatim>\<open>Len\<close> of the codec, it takes the encoded length, or the encoded length and a
  hundred octets more.
\<close>

definition ex_hdr :: msg_hdr where
  "ex_hdr = \<lparr>MsgId = 4660, Response = True, Opcode = 0, Authoritative = False,
             Truncated = False, RecursionDesired = True, RecursionAvailable = True,
             Zero = False, AuthenticatedData = False, CheckingDisabled = False, Rcode = 0\<rparr>"

definition ex_opt_hdr :: rr_header where
  "ex_opt_hdr = \<lparr>Name = [0], Rrtype = TypeOPT, Class = 4096, Ttl = 0\<rparr>"

definition ex_question :: question where
  "ex_question = \<lparr>QName = [1, 97, 0], Qtype = 16, Qclass = 1\<rparr>"

definition ex_rr :: "nat \<Rightarrow> rr" where
  "ex_rr n = RR \<lparr>Name = [1, 97, 0], Rrtype = 16, Class = 1, Ttl = 60\<rparr> (replicate n 0)"

definition ex_query :: msg where
  "ex_query = \<lparr>MsgHdr = ex_hdr\<lparr>Response := False, RecursionAvailable := False\<rparr>,
               Compress = False, Question = [ex_question],
               Answer = [], Ns = [], Extra = []\<rparr>"

definition ex_fragment :: "byte \<Rightarrow> byte \<Rightarrow> rr list \<Rightarrow> msg" where
  "ex_fragment k n answer =
     \<lparr>MsgHdr = ex_hdr, Compress = False, Question = [ex_question],
      Answer = answer, Ns = [],
      Extra = [OPT ex_opt_hdr [EDNS0_LOCAL FRAG_CODE [k, n]]]\<rparr>"

definition ex_up :: "msg option list \<Rightarrow> upstream" where
  "ex_up rds = \<lparr>dial_ok = True, write_ok = True, reads = rds\<rparr>"

definition ex_reply_no_opt :: msg where
  "ex_reply_no_opt = \<lparr>MsgHdr = ex_hdr, Compress = False, Question = [ex_question],
                      Answer = [ex_rr 4], Ns = [], Extra = []\<rparr>"

definition ex_cap_query :: msg where
  "ex_cap_query = ex_query\<lparr>Extra := [OPT ex_opt_hdr [EDNS0_LOCAL CAP_CODE []]]\<rparr>"

definition ex_backend :: "msg \<Rightarrow> msg \<Rightarrow> msg option" where
  "ex_backend reply query = Some reply"

definition ex_reply_huge :: msg where
  "ex_reply_huge = \<lparr>MsgHdr = ex_hdr, Compress = False, Question = [ex_question],
                    Answer = [ex_rr 10], Ns = [ex_rr 700], Extra = [OPT ex_opt_hdr []]\<rparr>"

text \<open>
  A reply with \<open>n\<close> answer records of 253 octets each, one of which fits in a fragment
  and two of which do not. With 256 of them the reply has 64798 octets, which an
  EDNS0 datagram can carry.
\<close>

definition ex_reply :: "nat \<Rightarrow> msg" where
  "ex_reply n = \<lparr>MsgHdr = ex_hdr, Compress = False, Question = [ex_question],
                 Answer = replicate n (ex_rr 240), Ns = [], Extra = [OPT ex_opt_hdr []]\<rparr>"

definition ex_frag :: "nat \<Rightarrow> msg" where
  "ex_frag n = (new_frag (ex_reply n) ex_opt_hdr [])\<lparr>Answer := [ex_rr 240]\<rparr>"

definition ex_stamped :: "nat \<Rightarrow> msg list" where
  "ex_stamped n = map (\<lambda>i. stamp ex_opt_hdr [] n i (ex_frag n)) [0..<n]"

definition ex_reply_dup :: msg where
  "ex_reply_dup = \<lparr>MsgHdr = ex_hdr, Compress = False, Question = [ex_question],
                   Answer = [ex_rr 4], Ns = [],
                   Extra = [OPT ex_opt_hdr [EDNS0_LOCAL FRAG_CODE [7]]]\<rparr>"

definition ex_dup_frag :: msg where
  "ex_dup_frag =
     ex_reply_dup\<lparr>Extra := [OPT ex_opt_hdr [EDNS0_LOCAL FRAG_CODE [1, 0],
                                            EDNS0_LOCAL FRAG_CODE [1, 0]]]\<rparr>"

definition ex_reply_short :: msg where
  "ex_reply_short = \<lparr>MsgHdr = ex_hdr, Compress = False, Question = [ex_question],
                     Answer = [ex_rr 459], Ns = [],
                     Extra = [OPT ex_opt_hdr [EDNS0_LOCAL FRAG_CODE []]]\<rparr>"

definition ex_short_frag :: msg where
  "ex_short_frag =
     ex_reply_short\<lparr>Extra := [OPT ex_opt_hdr [EDNS0_LOCAL FRAG_CODE [1, 0],
                                              EDNS0_LOCAL FRAG_CODE [1, 0]]]\<rparr>"

definition ex_reply_two_short :: msg where
  "ex_reply_two_short = \<lparr>MsgHdr = ex_hdr, Compress = False, Question = [ex_question],
                         Answer = [ex_rr 448], Ns = [],
                         Extra = [OPT ex_opt_hdr [],
                                  OPT ex_opt_hdr [EDNS0_LOCAL FRAG_CODE []]]\<rparr>"

definition ex_two_short_frag :: msg where
  "ex_two_short_frag =
     ex_reply_two_short\<lparr>Extra := [OPT ex_opt_hdr [EDNS0_LOCAL FRAG_CODE [0, 0]],
                                    OPT ex_opt_hdr [EDNS0_LOCAL FRAG_CODE [1, 0]]]\<rparr>"

definition ex_Len :: "msg \<Rightarrow> nat" where
  "ex_Len m = wire_len m + 100"

definition ex_reply_padded :: msg where
  "ex_reply_padded = \<lparr>MsgHdr = ex_hdr, Compress = False, Question = [ex_question],
                      Answer = [ex_rr 200, ex_rr 200], Ns = [],
                      Extra = [OPT ex_opt_hdr []]\<rparr>"

definition ex_bad_response :: msg where
  "ex_bad_response = \<lparr>MsgHdr = ex_hdr, Compress = False, Question = [ex_question],
                      Answer = [ex_rr 4], Ns = [],
                      Extra = [OPT ex_opt_hdr [EDNS0_LOCAL FRAG_CODE [2]]]\<rparr>"

text \<open>
  Messages with two OPT records in the additional section, and a record between them.
\<close>

definition ex_two_opt :: "edns0 list \<Rightarrow> edns0 list \<Rightarrow> msg" where
  "ex_two_opt os1 os2 =
     \<lparr>MsgHdr = ex_hdr, Compress = False, Question = [ex_question],
      Answer = [ex_rr 4], Ns = [],
      Extra = [OPT ex_opt_hdr os1, ex_rr 4, OPT (ex_opt_hdr\<lparr>Class := 1232\<rparr>) os2]\<rparr>"

definition ex_two_opt_frag :: msg where
  "ex_two_opt_frag =
     (ex_two_opt [] [])\<lparr>Extra := [OPT ex_opt_hdr [EDNS0_LOCAL FRAG_CODE [0, 0]], ex_rr 4,
                                  OPT (ex_opt_hdr\<lparr>Class := 1232\<rparr>) []]\<rparr>"


section \<open>The OPT record of a message\<close>

lemma last_OPT_None: "(last_OPT rs = None) = (\<forall>r\<in>set rs. \<not> is_OPT r)"
  by (induction rs) (auto split: option.splits rr.splits)

lemma last_OPT_Cons:
  "\<forall>r\<in>set post. \<not> is_OPT r \<Longrightarrow> last_OPT (OPT h os # post) = Some (h, os)"
  using last_OPT_None[of post] by simp

lemma last_OPT_split:
  "\<forall>r\<in>set post. \<not> is_OPT r \<Longrightarrow> last_OPT (pre @ OPT h os # post) = Some (h, os)"
proof (induction pre)
  case Nil
  then show ?case by (simp only: append_Nil last_OPT_Cons)
next
  case (Cons r pre)
  then show ?case by simp
qed

lemma remove_edns0_None: "(fst (remove_edns0 rs) = None) = (\<forall>r\<in>set rs. \<not> is_OPT r)"
  by (induction rs) (auto split: prod.splits)

section \<open>Reading the fragment descriptor\<close>

lemma scan_options_Some:
  "scan_options os = Some r \<Longrightarrow>
     (r = (- 1, - 1)) = (\<forall>opt\<in>set os. Code opt \<noteq> FRAG_CODE)"
proof (induction os)
  case Nil
  then show ?case by auto
next
  case (Cons opt os)
  have "uint d \<noteq> - 1" for d :: byte
    using uint_ge_0[of d] by linarith
  with Cons show ?case
    by (auto simp: FRAG_CODE_def split: if_splits list.splits)
qed

lemma scan_options_None:
  "(scan_options os = None) =
     (\<exists>opt. find (\<lambda>opt. Code opt = FRAG_CODE) os = Some opt \<and> length (Data opt) < 2)"
  by (induction os) (auto simp: FRAG_CODE_def split: if_splits list.splits)

lemma scan_options_find:
  "scan_options os =
     (case find (\<lambda>opt. Code opt = FRAG_CODE) os of
        None \<Rightarrow> Some (- 1, - 1)
      | Some opt \<Rightarrow>
          if 2 \<le> length (Data opt) then Some (uint (Data opt ! 0), uint (Data opt ! 1))
          else None)"
proof (induction os)
  case Nil
  then show ?case by simp
next
  case (Cons opt os)
  show ?case
  proof (cases "Code opt = FRAG_CODE")
    case True
    then show ?thesis
      by (cases "Data opt"; cases "tl (Data opt)") (auto simp: FRAG_CODE_def)
  next
    case False
    with Cons show ?thesis by (simp add: FRAG_CODE_def)
  qed
qed

text \<open>
  The reader panics exactly on a message whose first fragment option, in the OPT record
  that \<^verbatim>\<open>IsEdns0\<close> finds, has fewer than two data octets.
\<close>

lemma get_fragment_info_panics:
  "(get_fragment_info m = None) =
     (\<exists>opt. frag_option m = Some opt \<and> length (Data opt) < 2)"
  by (auto simp: get_fragment_info_def frag_option_def scan_options_None split: option.splits)

text \<open>
  Claim C9. \<^verbatim>\<open>get_fragment_info\<close> reads the last OPT record of the additional section.
  On a message without an OPT record, and on a message whose last OPT record carries no
  fragment option, it returns \<open>(-1, -1)\<close>. When the first fragment option of the last OPT
  record carries at least two data octets, it returns the first two of them, which is a
  pair other than \<open>(-1, -1)\<close>. When that option carries fewer than two data octets, it
  reads out of range and panics: the two-octet condition is needed.
\<close>

theorem get_fragment_info_total:
  "((\<forall>r\<in>set (Extra m). \<not> is_OPT r) \<longrightarrow> get_fragment_info m = Some (- 1, - 1))
   \<and> (\<forall>pre h os post.
        Extra m = pre @ OPT h os # post \<and> (\<forall>r\<in>set post. \<not> is_OPT r) \<longrightarrow>
          (case find (\<lambda>opt. Code opt = FRAG_CODE) os of
             None \<Rightarrow> get_fragment_info m = Some (- 1, - 1)
           | Some opt \<Rightarrow>
               (2 \<le> length (Data opt) \<longrightarrow>
                  get_fragment_info m = Some (uint (Data opt ! 0), uint (Data opt ! 1))
                  \<and> get_fragment_info m \<noteq> Some (- 1, - 1))
               \<and> (length (Data opt) < 2 \<longrightarrow> get_fragment_info m = None)))"
proof (intro conjI allI impI)
  assume "\<forall>r\<in>set (Extra m). \<not> is_OPT r"
  then have "last_OPT (Extra m) = None" by (simp only: last_OPT_None)
  then show "get_fragment_info m = Some (- 1, - 1)"
    by (simp add: get_fragment_info_def IsEdns0_def)
next
  fix pre h os post
  assume a: "Extra m = pre @ OPT h os # post \<and> (\<forall>r\<in>set post. \<not> is_OPT r)"
  then have "last_OPT (Extra m) = Some (h, os)"
    using last_OPT_split[of post pre h os] by simp
  then have g: "get_fragment_info m = scan_options os"
    by (simp add: get_fragment_info_def IsEdns0_def)
  have "uint d \<noteq> - 1" for d :: byte
    using uint_ge_0[of d] by linarith
  then show "case find (\<lambda>opt. Code opt = FRAG_CODE) os of
             None \<Rightarrow> get_fragment_info m = Some (- 1, - 1)
           | Some opt \<Rightarrow>
               (2 \<le> length (Data opt) \<longrightarrow>
                  get_fragment_info m = Some (uint (Data opt ! 0), uint (Data opt ! 1))
                  \<and> get_fragment_info m \<noteq> Some (- 1, - 1))
               \<and> (length (Data opt) < 2 \<longrightarrow> get_fragment_info m = None)"
    by (simp add: g scan_options_find split: option.splits)
qed

theorem get_fragment_info_total_witness:
  "get_fragment_info ex_query = Some (- 1, - 1)
   \<and> get_fragment_info (ex_two_opt [EDNS0_LOCAL FRAG_CODE [2, 1]] []) = Some (- 1, - 1)
   \<and> get_fragment_info (ex_two_opt [] [EDNS0_LOCAL CAP_CODE [9], EDNS0_LOCAL FRAG_CODE [2, 1, 7]])
       = Some (2, 1)
   \<and> get_fragment_info (ex_two_opt [EDNS0_LOCAL FRAG_CODE [2, 1]] [EDNS0_LOCAL FRAG_CODE [5]])
       = None"
proof -
  have e: "Extra (ex_two_opt os1 os2)
             = [OPT ex_opt_hdr os1, ex_rr 4] @ OPT (ex_opt_hdr\<lparr>Class := 1232\<rparr>) os2 # []
           \<and> (\<forall>r\<in>set []. \<not> is_OPT r)" for os1 os2
    by (simp add: ex_two_opt_def)
  have q: "\<forall>r\<in>set (Extra ex_query). \<not> is_OPT r"
    by (simp add: ex_query_def)
  note t = get_fragment_info_total
  from t[of ex_query, THEN conjunct1, THEN mp, OF q]
       t[of "ex_two_opt [EDNS0_LOCAL FRAG_CODE [2, 1]] []", THEN conjunct2, THEN spec, THEN spec, THEN spec, THEN spec, THEN mp, OF e]
       t[of "ex_two_opt [] [EDNS0_LOCAL CAP_CODE [9], EDNS0_LOCAL FRAG_CODE [2, 1, 7]]",
         THEN conjunct2, THEN spec, THEN spec, THEN spec, THEN spec, THEN mp, OF e]
       t[of "ex_two_opt [EDNS0_LOCAL FRAG_CODE [2, 1]] [EDNS0_LOCAL FRAG_CODE [5]]",
         THEN conjunct2, THEN spec, THEN spec, THEN spec, THEN spec, THEN mp, OF e]
  show ?thesis
    by (simp add: FRAG_CODE_def CAP_CODE_def EDNS0LOCALSTART_def)
qed

section \<open>The client proxy: missing fragments and the buffer of the client\<close>

lemma collect_done:
  "\<not> int (length frags) < num_frags \<Longrightarrow> collect request num_frags frags rds = Frags frags"
  by (simp add: collect.simps)

lemma collect_step:
  "int (length frags) < num_frags \<Longrightarrow>
   wait_for_response request rds = (Some response, rest) \<Longrightarrow>
   get_fragment_info response = Some (n, sequence_num) \<Longrightarrow>
   collect request num_frags frags rds
     = collect request num_frags (AList.update sequence_num response frags) rest"
  by (subst collect.simps) simp

lemma rebuild_loop_None:
  "(rebuild_loop frags ns r = None) = (\<exists>n\<in>set ns. map_of frags n = None)"
  by (induction ns arbitrary: r) (auto split: option.splits)

lemma rebuild_None:
  "(rebuild frags num_frags = None) =
     (map_of frags 0 = None \<or> (\<exists>i. 1 \<le> i \<and> i < num_frags \<and> map_of frags i = None))"
  by (auto simp: rebuild_def rebuild_loop_None split: option.splits)

lemma SRVFAIL_fields:
  "MsgId (MsgHdr (SRVFAIL request)) = MsgId (MsgHdr request)
   \<and> Rcode (MsgHdr (SRVFAIL request)) = 2
   \<and> Answer (SRVFAIL request) = [] \<and> Ns (SRVFAIL request) = []
   \<and> Extra (SRVFAIL request) = []"
  by (simp add: SRVFAIL_def SetRcode_def SetReply_def new_Msg_def RcodeServerFailure_def)

lemma ex_info: "get_fragment_info (ex_fragment k n answer) = Some (uint k, uint n)"
  by (simp add: get_fragment_info_def ex_fragment_def IsEdns0_def FRAG_CODE_def)

lemma ex_ids: "MsgId (MsgHdr (ex_fragment k n answer)) = MsgId (MsgHdr ex_query)"
  by (simp add: ex_query_def ex_fragment_def)

lemma ex_wait:
  "wait_for_response ex_query (Some (ex_fragment k n answer) # rds)
     = (Some (ex_fragment k n answer), rds)"
  by (simp add: ex_ids)

text \<open>
  Claim C8. When the collecting loop has ended and the map lacks fragment 0, or lacks
  fragment \<open>i\<close> for some \<open>i\<close> from 1 to the total less one, the handler writes one message
  and no other, \<^verbatim>\<open>SRVFAIL\<close>: it has the identifier of the query, the response code 2 and
  no records.
\<close>

theorem missing_fragment_SRVFAIL:
  assumes "dial_ok up" and "write_ok up"
    and "wait_for_response request (reads up) = (Some response, rest)"
    and "get_fragment_info response = Some (num_frags, sequence_num)"
    and "num_frags \<noteq> - 1"
    and "collect request num_frags [(sequence_num, response)] rest = Frags frags"
    and "map_of frags 0 = None \<or> (\<exists>i. 1 \<le> i \<and> i < num_frags \<and> map_of frags i = None)"
  shows "ClientProxy_ServeDNS Len request up = Some [SRVFAIL request]
         \<and> MsgId (MsgHdr (SRVFAIL request)) = MsgId (MsgHdr request)
         \<and> Rcode (MsgHdr (SRVFAIL request)) = 2
         \<and> Answer (SRVFAIL request) = [] \<and> Ns (SRVFAIL request) = []
         \<and> Extra (SRVFAIL request) = []"
proof -
  have "rebuild frags num_frags = None"
    using assms(7) by (simp add: rebuild_None)
  with assms(1-6) have "ClientProxy_ServeDNS Len request up = Some [SRVFAIL request]"
    by (simp add: ClientProxy_ServeDNS_def reassemble_def)
  with SRVFAIL_fields[of request] show ?thesis by simp
qed

theorem missing_fragment_SRVFAIL_witness:
  "collect ex_query 1 [(5, ex_fragment 1 5 [])] [] = Frags [(5, ex_fragment 1 5 [])]
   \<and> map_of [(5 :: int, ex_fragment 1 5 [])] 0 = None
   \<and> ClientProxy_ServeDNS wire_len ex_query (ex_up [Some (ex_fragment 1 5 [])])
       = Some [SRVFAIL ex_query]
   \<and> MsgId (MsgHdr (SRVFAIL ex_query)) = 4660
   \<and> Rcode (MsgHdr (SRVFAIL ex_query)) = 2"
proof -
  have c: "collect ex_query 1 [(5, ex_fragment 1 5 [])] [] = Frags [(5, ex_fragment 1 5 [])]"
    by (simp add: collect_done)
  have m: "map_of [(5 :: int, ex_fragment 1 5 [])] 0 = None \<or>
           (\<exists>i. 1 \<le> i \<and> i < (1::int) \<and> map_of [(5 :: int, ex_fragment 1 5 [])] i = None)"
    by simp
  have d: "dial_ok (ex_up [Some (ex_fragment 1 5 [])])"
    and w: "write_ok (ex_up [Some (ex_fragment 1 5 [])])"
    by (simp_all add: ex_up_def)
  have r: "wait_for_response ex_query (reads (ex_up [Some (ex_fragment 1 5 [])]))
             = (Some (ex_fragment 1 5 []), [])"
    by (simp add: ex_up_def ex_ids)
  have i: "get_fragment_info (ex_fragment 1 5 []) = Some (1, 5)"
    by (simp add: ex_info)
  have n: "(1::int) \<noteq> - 1" by simp
  from missing_fragment_SRVFAIL[where Len = wire_len, OF d w r i n c m] c
  show ?thesis by (simp add: ex_query_def ex_hdr_def)
qed




section \<open>What the fragmenter returns\<close>

lemma fill_answer_fits:
  "fill_answer Len frg ra = (f', ra') \<Longrightarrow> f' = frg \<or> Len f' \<le> 512"
proof (induction ra arbitrary: frg)
  case Nil
  then show ?case by simp
next
  case (Cons r rest)
  show ?case
  proof (cases "Len (frg\<lparr>Answer := Answer frg @ [r]\<rparr>) \<le> 512")
    case True
    with Cons.prems have "fill_answer Len (frg\<lparr>Answer := Answer frg @ [r]\<rparr>) rest = (f', ra')"
      by simp
    from Cons.IH[OF this] True show ?thesis by auto
  next
    case False
    with Cons.prems show ?thesis by simp
  qed
qed

lemma fill_ns_fits:
  "fill_ns Len frg rn = (f', rn') \<Longrightarrow> f' = frg \<or> Len f' \<le> 512"
proof (induction rn arbitrary: frg)
  case Nil
  then show ?case by simp
next
  case (Cons r rest)
  show ?case
  proof (cases "Len (frg\<lparr>Ns := Ns frg @ [r]\<rparr>) \<le> 512")
    case True
    with Cons.prems have "fill_ns Len (frg\<lparr>Ns := Ns frg @ [r]\<rparr>) rest = (f', rn')"
      by simp
    from Cons.IH[OF this] True show ?thesis by auto
  next
    case False
    with Cons.prems show ?thesis by simp
  qed
qed

lemma fill_extra_fits:
  "fill_extra Len frg re = (f', re') \<Longrightarrow> f' = frg \<or> Len f' \<le> 512"
proof (induction re arbitrary: frg)
  case Nil
  then show ?case by simp
next
  case (Cons r rest)
  show ?case
  proof (cases "Len (frg\<lparr>Extra := Extra frg @ [r]\<rparr>) \<le> 512")
    case True
    with Cons.prems have "fill_extra Len (frg\<lparr>Extra := Extra frg @ [r]\<rparr>) rest = (f', re')"
      by simp
    from Cons.IH[OF this] True show ?thesis by auto
  next
    case False
    with Cons.prems show ?thesis by simp
  qed
qed

text \<open>
  A fragment that took a record is in the state of its last successful length test:
  the removal after a failed test restores the message that was tested before.
\<close>

lemma fill_frag_fits:
  assumes "fill_frag Len frg ra rn re = (f3, ra', rn', re')"
  shows "f3 = frg \<or> Len f3 \<le> 512"
proof -
  obtain f1 f2 where a: "fill_answer Len frg ra = (f1, ra')"
    and n: "fill_ns Len f1 rn = (f2, rn')"
    and e: "fill_extra Len f2 re = (f3, re')"
    using assms by (auto simp: fill_frag_def split: prod.splits)
  from fill_answer_fits[OF a] fill_ns_fits[OF n] fill_extra_fits[OF e]
  show ?thesis by auto
qed

lemma frag_loop_Break:
  "frag_loop Len reply h os ra rn re acc = Break fs \<Longrightarrow>
     \<exists>new. fs = acc @ new \<and> new \<noteq> [] \<and> list_all (frag_of Len reply h os) new
       \<and> concat (map Answer new) = ra \<and> concat (map Ns new) = rn
       \<and> concat (map (\<lambda>f. tl (Extra f)) new) = re"
proof (induction Len reply h os ra rn re acc arbitrary: fs rule: frag_loop.induct)
  case (1 Len reply h os ra rn re acc)
  obtain frg ra' rn' re' where
    ff: "fill_frag Len (new_frag reply h os) ra rn re = (frg, ra', rn', re')"
    by (cases "fill_frag Len (new_frag reply h os) ra rn re") auto
  from fill_frag_shape[OF ff] obtain ta tn te where
    s: "ra = ta @ ra'" "rn = tn @ rn'" "re = te @ re'"
       "frg = reply\<lparr>Answer := ta, Ns := tn, Extra := OPT h (os @ [local_opt]) # te\<rparr>"
    by blast
  show ?case
  proof (cases "Answer frg = [] \<and> Ns frg = [] \<and> length (Extra frg) = 1")
    case True
    with ff "1.prems" show ?thesis
      by (subst (asm) frag_loop.simps) (auto split: if_splits)
  next
    case np: False
    then have "frg \<noteq> new_frag reply h os"
      by (auto simp: new_frag_def)
    with fill_frag_fits[OF ff] have "Len frg \<le> 512" by simp
    with s(4) have fo: "frag_of Len reply h os frg"
      by (simp add: frag_of_def)
    show ?thesis
    proof (cases "ra' = [] \<and> rn' = [] \<and> re' = []")
      case True
      with ff np "1.prems" have "fs = acc @ [frg]"
        by (subst (asm) frag_loop.simps) (auto split: if_splits)
      with True s fo show ?thesis
        by (intro exI[of _ "[frg]"]) simp
    next
      case ne: False
      with ff np "1.prems" have
        "frag_loop Len reply h os ra' rn' re' (acc @ [frg]) = Break fs"
        by (subst (asm) frag_loop.simps) (auto split: if_splits)
      from "1.IH"[OF ff[symmetric] refl refl np ne this] obtain new where
        n: "fs = (acc @ [frg]) @ new" "new \<noteq> []" "list_all (frag_of Len reply h os) new"
           "concat (map Answer new) = ra'" "concat (map Ns new) = rn'"
           "concat (map (\<lambda>f. tl (Extra f)) new) = re'"
        by blast
      with s fo show ?thesis
        by (intro exI[of _ "frg # new"]) simp
    qed
  qed
qed

lemma frag_loop_Return:
  "frag_loop Len reply h os ra rn re acc = Return ms \<Longrightarrow>
     ms = [truncated_reply (new_frag reply h os)]"
proof (induction Len reply h os ra rn re acc arbitrary: ms rule: frag_loop.induct)
  case (1 Len reply h os ra rn re acc)
  obtain frg ra' rn' re' where
    ff: "fill_frag Len (new_frag reply h os) ra rn re = (frg, ra', rn', re')"
    by (cases "fill_frag Len (new_frag reply h os) ra rn re") auto
  from fill_frag_shape[OF ff] obtain ta tn te where
    s: "frg = reply\<lparr>Answer := ta, Ns := tn, Extra := OPT h (os @ [local_opt]) # te\<rparr>"
    by blast
  show ?case
  proof (cases "Answer frg = [] \<and> Ns frg = [] \<and> length (Extra frg) = 1")
    case True
    with s have "frg = new_frag reply h os"
      by (simp add: new_frag_def)
    with True ff "1.prems" show ?thesis
      by (subst (asm) frag_loop.simps) (auto split: if_splits)
  next
    case np: False
    show ?thesis
    proof (cases "ra' = [] \<and> rn' = [] \<and> re' = []")
      case True
      with ff np "1.prems" show ?thesis
        by (subst (asm) frag_loop.simps) (auto split: if_splits)
    next
      case ne: False
      with ff np "1.prems" have
        "frag_loop Len reply h os ra' rn' re' (acc @ [frg]) = Return ms"
        by (subst (asm) frag_loop.simps) (auto split: if_splits)
      from "1.IH"[OF ff[symmetric] refl refl np ne this] show ?thesis .
    qed
  qed
qed

lemma frag_of_Extra:
  assumes "frag_of Len reply h os f"
  shows "Extra f = OPT h (os @ [local_opt]) # tl (Extra f)"
proof -
  from assms have "f = reply\<lparr>Answer := Answer f, Ns := Ns f,
                             Extra := OPT h (os @ [local_opt]) # tl (Extra f)\<rparr>"
    by (simp add: frag_of_def)
  then have "Extra f = Extra (reply\<lparr>Answer := Answer f, Ns := Ns f,
                             Extra := OPT h (os @ [local_opt]) # tl (Extra f)\<rparr>)"
    by (rule arg_cong)
  then show ?thesis by simp
qed

lemma fix_last_opt_None: "(fix_last_opt k n rs = None) = (\<forall>r\<in>set rs. \<not> is_OPT r)"
  by (induction rs) (auto split: option.splits rr.splits)

lemma fix_last_opt_Cons:
  "\<forall>r\<in>set rs. \<not> is_OPT r \<Longrightarrow>
     fix_last_opt k n (OPT h os # rs) = Some (OPT h (map (fix_option k n) os) # rs)"
  using fix_last_opt_None[of k n rs] by simp

text \<open>
  The fix-up of a fragment whose only OPT record is the copy at the head of its
  additional section.
\<close>

lemma fixup_frag_of:
  assumes "frag_of Len reply h os f" and "\<forall>r\<in>set (tl (Extra f)). \<not> is_OPT r"
  shows "fixup_frag k n f = Some (stamp h os k n f)"
proof -
  have "fix_last_opt (of_nat k) (of_nat n) (OPT h (os @ [local_opt]) # tl (Extra f))
          = Some (OPT h (map (fix_option (of_nat k) (of_nat n)) (os @ [local_opt]))
                  # tl (Extra f))"
    by (rule fix_last_opt_Cons[OF assms(2)])
  with frag_of_Extra[OF assms(1)] show ?thesis
    by (simp add: fixup_frag_def stamp_def)
qed

lemma fixup_frags:
  "list_all (frag_of Len reply h os) new \<Longrightarrow>
   \<forall>f\<in>set new. \<forall>r\<in>set (tl (Extra f)). \<not> is_OPT r \<Longrightarrow>
     fixup k n new = Some (map (\<lambda>(i, f). stamp h os k i f) (zip [n..<n + length new] new))"
proof (induction new arbitrary: n)
  case Nil
  then show ?case by simp
next
  case (Cons f new)
  have u: "[n..<n + length (f # new)] = n # [Suc n..<Suc n + length new]"
    by (subst upt_rec) simp
  have "fixup k n (f # new)
      = Some (stamp h os k n f
              # map (\<lambda>(i, f). stamp h os k i f) (zip [Suc n..<Suc n + length new] new))"
  proof -
    from Cons.prems have fo: "frag_of Len reply h os f"
      and rest: "list_all (frag_of Len reply h os) new"
      and no: "\<forall>r\<in>set (tl (Extra f)). \<not> is_OPT r"
      and nos: "\<forall>f\<in>set new. \<forall>r\<in>set (tl (Extra f)). \<not> is_OPT r"
      by simp_all
    from Cons.IH[OF rest nos, of "Suc n"] fixup_frag_of[OF fo no, of k n] show ?thesis
      by (simp del: upt_Suc)
  qed
  then show ?case
    unfolding u by (simp del: upt_Suc)
qed

text \<open>
  \<^verbatim>\<open>frag\<close> on a reply with an OPT record: the reply is left as it is, and the result is
  that of the outer loop, after the fix-up when the loop ends with fragments.
\<close>

lemma frag_with_OPT:
  assumes "remove_edns0 (Extra reply) = (Some (OPT h os), re0)"
  shows "frag Len reply =
           (case frag_loop Len reply h os (Answer reply) (Ns reply) re0 [] of
              Return ms \<Rightarrow> Some ms
            | Break all_frags \<Rightarrow> fixup (length all_frags) 0 all_frags)"
proof -
  from assms have "fst (remove_edns0 (Extra reply)) \<noteq> None" by simp
  then have "last_OPT (Extra reply) \<noteq> None"
    by (simp only: remove_edns0_None last_OPT_None) simp
  then obtain e where "IsEdns0 reply = Some e"
    by (auto simp: IsEdns0_def)
  with assms show ?thesis
    by (simp add: frag_def)
qed

lemma frag_Return:
  assumes "remove_edns0 (Extra reply) = (Some (OPT h os), re0)"
    and "frag_loop Len reply h os (Answer reply) (Ns reply) re0 [] = Return acc"
  shows "frag Len reply = Some [truncated_reply (new_frag reply h os)]"
  using frag_loop_Return[OF assms(2)] assms(2)
  by (simp add: frag_with_OPT[OF assms(1)])

text \<open>
  The result of \<^verbatim>\<open>frag\<close> on a reply with one OPT record: the single truncated message,
  or the stamped fragments.
\<close>

lemma frag_cases:
  assumes "remove_edns0 (Extra reply) = (Some (OPT h os), re0)"
    and "\<forall>r\<in>set re0. \<not> is_OPT r"
  shows "(frag Len reply = Some [truncated_reply (new_frag reply h os)]
          \<and> (\<exists>acc. frag_loop Len reply h os (Answer reply) (Ns reply) re0 []
                      = Return acc))
       \<or> (\<exists>new. new \<noteq> [] \<and> list_all (frag_of Len reply h os) new
            \<and> frag_loop Len reply h os (Answer reply) (Ns reply) re0 [] = Break new
            \<and> concat (map Answer new) = Answer reply
            \<and> concat (map Ns new) = Ns reply
            \<and> concat (map (\<lambda>f. tl (Extra f)) new) = re0
            \<and> (\<forall>f\<in>set new. \<forall>r\<in>set (tl (Extra f)). \<not> is_OPT r)
            \<and> frag Len reply
                = Some (map (\<lambda>(i, f). stamp h os (length new) i f)
                          (zip [0..<length new] new)))"
proof (cases "frag_loop Len reply h os (Answer reply) (Ns reply) re0 []")
  case (Return ms)
  from frag_Return[OF assms(1) this] Return show ?thesis
    by simp
next
  case (Break fs)
  from frag_loop_Break[OF this] obtain new where
    n: "fs = new" "new \<noteq> []" "list_all (frag_of Len reply h os) new"
       "concat (map Answer new) = Answer reply" "concat (map Ns new) = Ns reply"
       "concat (map (\<lambda>f. tl (Extra f)) new) = re0"
    by auto
  have "set re0 = (\<Union>f\<in>set new. set (tl (Extra f)))"
    unfolding n(6)[symmetric] by simp
  with assms(2) have no: "\<forall>f\<in>set new. \<forall>r\<in>set (tl (Extra f)). \<not> is_OPT r"
    by blast
  from fixup_frags[OF n(3) no, of "length new" 0] Break n no show ?thesis
    by (simp add: frag_with_OPT[OF assms(1)])
qed

section \<open>A backend reply without an OPT record\<close>

text \<open>
  The OPT record that \<^verbatim>\<open>frag\<close> adds to such a reply is in the reply, not in the copy of
  the additional section that the next loop reads.
\<close>

lemma frag_no_OPT:
  assumes "\<forall>r\<in>set (Extra reply). \<not> is_OPT r"
  shows "frag Len reply = Some []"
proof -
  from assms have "fst (remove_edns0 (Extra reply)) = None"
    by (simp only: remove_edns0_None)
  then show ?thesis
    by (cases "remove_edns0 (Extra reply)") (simp add: frag_def Let_def)
qed

lemma remove_cap_found:
  "fst (remove_cap os) = (\<exists>e\<in>set os. Code e = CAP_CODE)"
  by (induction os) (auto simp: CAP_CODE_def split: prod.splits)

lemma consume_last_found:
  "map_option fst (consume_last rs)
     = map_option (\<lambda>(h, os). \<exists>e\<in>set os. Code e = CAP_CODE) (last_OPT rs)"
proof (induction rs)
  case Nil
  then show ?case by simp
next
  case (Cons r rs)
  show ?case
  proof (cases "last_OPT rs")
    case None
    with Cons have c: "consume_last rs = None" by simp
    show ?thesis
    proof (cases r)
      case (OPT h os)
      with None c remove_cap_found[of os] show ?thesis
        by (cases "remove_cap os") (auto split: bool.splits)
    next
      case (RR h d)
      with None c show ?thesis by simp
    qed
  next
    case (Some e)
    with Cons obtain b rs' where "consume_last rs = Some (b, rs')"
      by (cases "consume_last rs") auto
    with Some Cons show ?thesis by simp
  qed
qed

lemma consume_opt_found:
  "fst (consume_opt rs) =
     (case last_OPT rs of None \<Rightarrow> False | Some (h, os) \<Rightarrow> (\<exists>e\<in>set os. Code e = CAP_CODE))"
  using consume_last_found[of rs]
  by (cases "consume_last rs"; cases "last_OPT rs") (auto simp: consume_opt_def)

text \<open>
  For a backend reply without an OPT record, when the last OPT record of the query
  carried the capability option, the handler writes nothing to the client.
\<close>

lemma ServeDNS_no_OPT_reply:
  assumes "Extra request = pre @ OPT h os # post" and "\<forall>r\<in>set post. \<not> is_OPT r"
    and "\<exists>e\<in>set os. Code e = CAP_CODE"
    and "Exchange (request\<lparr>Extra := snd (consume_opt (Extra request))\<rparr>) = Some response"
    and "\<forall>r\<in>set (Extra response). \<not> is_OPT r"
  shows "ServerProxy_ServeDNS Len Exchange request = Some []"
proof -
  from assms(1,2) have "last_OPT (Extra request) = Some (h, os)"
    using last_OPT_split[of post pre h os] by simp
  with assms(3) consume_opt_found[of "Extra request"]
  have "fst (consume_opt (Extra request))"
    by simp
  then obtain extra' where "consume_opt (Extra request) = (True, extra')"
    by (cases "consume_opt (Extra request)") auto
  with assms(4) frag_no_OPT[OF assms(5), of Len] show ?thesis
    by (simp add: ServerProxy_ServeDNS_def)
qed

text \<open>
  Claim C3 fails in the code. The query carries the capability option and the backend
  replies without an OPT record. \<^verbatim>\<open>frag\<close> adds an OPT record to the reply, but looks for
  it in the copy of the additional section made before, and returns no message; the
  handler then writes nothing to the client. The raw reply is forwarded only when the
  query carries no capability option.
\<close>

theorem no_opt_reply_dropped:
  "Extra ex_reply_no_opt = []
   \<and> IsEdns0 ex_cap_query = Some (ex_opt_hdr, [EDNS0_LOCAL CAP_CODE []])
   \<and> IsEdns0 (SetEdns0 ex_reply_no_opt 512 False)
       = Some (\<lparr>Name = [0], Rrtype = TypeOPT, Class = 512, Ttl = 0\<rparr>, [])
   \<and> frag Len ex_reply_no_opt = Some []
   \<and> ServerProxy_ServeDNS Len (ex_backend ex_reply_no_opt) ex_cap_query = Some []
   \<and> ServerProxy_ServeDNS Len (ex_backend ex_reply_no_opt) ex_query
       = Some [ex_reply_no_opt]"
proof -
  have e: "Extra ex_reply_no_opt = []"
    by (simp add: ex_reply_no_opt_def)
  have q: "IsEdns0 ex_cap_query = Some (ex_opt_hdr, [EDNS0_LOCAL CAP_CODE []])"
    by (simp add: IsEdns0_def ex_cap_query_def)
  have s: "IsEdns0 (SetEdns0 ex_reply_no_opt 512 False)
             = Some (\<lparr>Name = [0], Rrtype = TypeOPT, Class = 512, Ttl = 0\<rparr>, [])"
    by (simp add: IsEdns0_def SetEdns0_def e)
  have f: "frag Len ex_reply_no_opt = Some []"
    by (rule frag_no_OPT) (simp add: e)
  have c: "consume_opt (Extra ex_cap_query) = (True, [OPT (ex_opt_hdr\<lparr>Class := 65535\<rparr>) []])"
    by (simp add: consume_opt_def ex_cap_query_def CAP_CODE_def)
  have c': "consume_opt (Extra ex_query) = (False, [])"
    by (simp add: consume_opt_def ex_query_def)
  have w: "ServerProxy_ServeDNS Len (ex_backend ex_reply_no_opt) ex_cap_query = Some []"
    by (simp add: ServerProxy_ServeDNS_def c ex_backend_def f)
  have r: "ServerProxy_ServeDNS Len (ex_backend ex_reply_no_opt) ex_query
             = Some [ex_reply_no_opt]"
    by (simp add: ServerProxy_ServeDNS_def c' ex_backend_def)
  from e q s f w r show ?thesis by simp
qed

section \<open>A record that fits in no fragment\<close>

lemma frag_loop_pass_Return:
  assumes "fill_frag Len (new_frag reply h os) ra rn re = (frg, ra', rn', re')"
    and "Answer frg = [] \<and> Ns frg = [] \<and> length (Extra frg) = 1"
  shows "frag_loop Len reply h os ra rn re acc = Return [truncated_reply frg]"
  using assms by (subst frag_loop.simps) simp

lemma frag_loop_pass_Break:
  assumes "fill_frag Len (new_frag reply h os) ra rn re = (frg, ra', rn', re')"
    and "\<not> (Answer frg = [] \<and> Ns frg = [] \<and> length (Extra frg) = 1)"
    and "ra' = [] \<and> rn' = [] \<and> re' = []"
  shows "frag_loop Len reply h os ra rn re acc = Break (acc @ [frg])"
  using assms by (subst frag_loop.simps) auto

lemma frag_loop_pass_next:
  assumes "fill_frag Len (new_frag reply h os) ra rn re = (frg, ra', rn', re')"
    and "\<not> (Answer frg = [] \<and> Ns frg = [] \<and> length (Extra frg) = 1)"
    and "\<not> (ra' = [] \<and> rn' = [] \<and> re' = [])"
  shows "frag_loop Len reply h os ra rn re acc
           = frag_loop Len reply h os ra' rn' re' (acc @ [frg])"
  using assms by (subst frag_loop.simps) auto

lemma next_overflows_Return:
  "next_overflows Len reply h os ra rn re \<Longrightarrow>
     \<exists>ms. frag_loop Len reply h os ra rn re acc = Return ms"
proof (induction Len reply h os ra rn re acc rule: frag_loop.induct)
  case (1 Len reply h os ra rn re acc)
  obtain frg ra' rn' re' where
    ff: "fill_frag Len (new_frag reply h os) ra rn re = (frg, ra', rn', re')"
    by (cases "fill_frag Len (new_frag reply h os) ra rn re") auto
  show ?case
  proof (cases "Answer frg = [] \<and> Ns frg = [] \<and> length (Extra frg) = 1")
    case True
    from frag_loop_pass_Return[OF ff True] show ?thesis by blast
  next
    case np: False
    have keep: "next_overflows Len reply h os ra' rn' re' \<and> \<not> (ra' = [] \<and> rn' = [] \<and> re' = [])"
    proof (cases ra)
      case (Cons r rs)
      with "1.prems" have "fill_answer Len (new_frag reply h os) ra = (new_frag reply h os, ra)"
        by (simp add: next_overflows_def new_frag_def)
      with ff have "ra' = ra"
        by (auto simp: fill_frag_def split: prod.splits)
      with Cons "1.prems" show ?thesis
        by (simp add: next_overflows_def)
    next
      case ra: Nil
      show ?thesis
      proof (cases rn)
        case (Cons r rs)
        with ra "1.prems" have "fill_ns Len (new_frag reply h os) rn = (new_frag reply h os, rn)"
          by (simp add: next_overflows_def new_frag_def)
        with ff ra have "ra' = [] \<and> rn' = rn"
          by (auto simp: fill_frag_def split: prod.splits)
        with Cons ra "1.prems" show ?thesis
          by (simp add: next_overflows_def)
      next
        case rn: Nil
        show ?thesis
        proof (cases re)
          case (Cons r rs)
          with ra rn "1.prems" have
            "fill_extra Len (new_frag reply h os) re = (new_frag reply h os, re)"
            by (simp add: next_overflows_def new_frag_def)
          with ff ra rn have "frg = new_frag reply h os"
            by (auto simp: fill_frag_def split: prod.splits)
          with np show ?thesis
            by (simp add: new_frag_def)
        next
          case Nil
          with ra rn "1.prems" show ?thesis
            by (simp add: next_overflows_def)
        qed
      qed
    qed
    then have ne: "\<not> (ra' = [] \<and> rn' = [] \<and> re' = [])"
      and no: "next_overflows Len reply h os ra' rn' re'"
      by simp_all
    from "1.IH"[OF ff[symmetric] refl refl np ne no] obtain ms where
      "frag_loop Len reply h os ra' rn' re' (acc @ [frg]) = Return ms"
      by blast
    with frag_loop_pass_next[OF ff np ne, of acc] show ?thesis
      by simp
  qed
qed

lemma frag_loop_Return_acc:
  assumes "frag_loop Len reply h os ra rn re acc = Return ms"
  shows "frag_loop Len reply h os ra rn re acc' = Return ms"
  using assms
proof (induction Len reply h os ra rn re acc arbitrary: acc' rule: frag_loop.induct)
  case (1 Len reply h os ra rn re acc)
  obtain frg ra' rn' re' where
    ff: "fill_frag Len (new_frag reply h os) ra rn re = (frg, ra', rn', re')"
    by (cases "fill_frag Len (new_frag reply h os) ra rn re") auto
  show ?case
  proof (cases "Answer frg = [] \<and> Ns frg = [] \<and> length (Extra frg) = 1")
    case True
    from frag_loop_pass_Return[OF ff True, of acc] frag_loop_pass_Return[OF ff True, of acc']
      "1.prems"
    show ?thesis by simp
  next
    case np: False
    show ?thesis
    proof (cases "ra' = [] \<and> rn' = [] \<and> re' = []")
      case True
      from frag_loop_pass_Break[OF ff np True, of acc] "1.prems" show ?thesis
        by simp
    next
      case ne: False
      from frag_loop_pass_next[OF ff np ne, of acc] "1.prems"
      have "frag_loop Len reply h os ra' rn' re' (acc @ [frg]) = Return ms"
        by simp
      from "1.IH"[OF ff[symmetric] refl refl np ne this, of "acc' @ [frg]"]
        frag_loop_pass_next[OF ff np ne, of acc']
      show ?thesis by simp
    qed
  qed
qed

lemma frag_reach_Return:
  assumes "frag_reach Len reply h os s s'"
    and "s = (ra0, rn0, re0)" and "s' = (ra, rn, re)"
    and "frag_loop Len reply h os ra rn re acc' = Return ms"
  shows "frag_loop Len reply h os ra0 rn0 re0 acc = Return ms"
  using assms
proof (induction arbitrary: ra rn re acc' rule: frag_reach.induct)
  case start
  then have "frag_loop Len reply h os ra0 rn0 re0 acc' = Return ms"
    by simp
  from frag_loop_Return_acc[OF this] show ?case .
next
  case (pass ra1 rn1 re1 frg ra' rn' re')
  from pass.prems have "frag_loop Len reply h os ra' rn' re' acc' = Return ms"
    by simp
  from frag_loop_Return_acc[OF this]
  have "frag_loop Len reply h os ra' rn' re' ([] @ [frg]) = Return ms" .
  with frag_loop_pass_next[OF pass.hyps(2,3,4), of "[]"]
  have "frag_loop Len reply h os ra1 rn1 re1 [] = Return ms"
    by simp
  from pass.IH[OF pass.prems(1) refl this] show ?case .
qed

text \<open>
  Claim C4. When, at the start of a pass of the loop, the next record alone does not
  fit with the header and the OPT copy, \<^verbatim>\<open>frag\<close> returns one message: the reply with
  the TC flag set and its three sections empty. It has no OPT record, so no fragment
  option.
\<close>

theorem single_rr_overflow_truncated:
  assumes "remove_edns0 (Extra reply) = (Some (OPT h os), re0)"
    and "frag_reach Len reply h os (Answer reply, Ns reply, re0) (ra, rn, re)"
    and "next_overflows Len reply h os ra rn re"
  shows "frag Len reply =
           Some [reply\<lparr>MsgHdr := (MsgHdr reply)\<lparr>Truncated := True\<rparr>,
                       Answer := [], Ns := [], Extra := []\<rparr>]
         \<and> frag_option (reply\<lparr>MsgHdr := (MsgHdr reply)\<lparr>Truncated := True\<rparr>,
                       Answer := [], Ns := [], Extra := []\<rparr>) = None"
proof -
  from next_overflows_Return[OF assms(3), of "[]"] obtain ms where
    "frag_loop Len reply h os ra rn re [] = Return ms"
    by blast
  from frag_reach_Return[OF assms(2) refl refl this, of "[]"]
  have r: "frag_loop Len reply h os (Answer reply) (Ns reply) re0 [] = Return ms" .
  from frag_Return[OF assms(1) r] show ?thesis
    by (simp add: truncated_reply_def new_frag_def frag_option_def IsEdns0_def)
qed

lemma rr_len_ex_rr: "rr_len (ex_rr n) = 13 + n"
  by (simp add: ex_rr_def)

theorem single_rr_overflow_truncated_witness:
  "remove_edns0 (Extra ex_reply_huge) = (Some (OPT ex_opt_hdr []), [])
   \<and> frag_reach wire_len ex_reply_huge ex_opt_hdr []
        (Answer ex_reply_huge, Ns ex_reply_huge, []) ([], [ex_rr 700], [])
   \<and> next_overflows wire_len ex_reply_huge ex_opt_hdr [] [] [ex_rr 700] []
   \<and> frag wire_len ex_reply_huge =
        Some [\<lparr>MsgHdr = ex_hdr\<lparr>Truncated := True\<rparr>, Compress = False,
               Question = [ex_question], Answer = [], Ns = [], Extra = []\<rparr>]"
proof -
  have o: "remove_edns0 (Extra ex_reply_huge) = (Some (OPT ex_opt_hdr []), [])"
    by (simp add: ex_reply_huge_def)
  have f: "fill_frag wire_len (new_frag ex_reply_huge ex_opt_hdr []) [ex_rr 10] [ex_rr 700] []
             = ((new_frag ex_reply_huge ex_opt_hdr [])\<lparr>Answer := [ex_rr 10]\<rparr>,
                [], [ex_rr 700], [])"
    by (simp add: fill_frag_def new_frag_def wire_len_def ex_reply_huge_def rr_len_ex_rr
        ex_question_def ex_opt_hdr_def local_opt_def)
  have "frag_reach wire_len ex_reply_huge ex_opt_hdr [] ([ex_rr 10], [ex_rr 700], [])
          ([], [ex_rr 700], [])"
    by (rule frag_reach.pass[OF frag_reach.start f]) simp_all
  then have p: "frag_reach wire_len ex_reply_huge ex_opt_hdr []
          (Answer ex_reply_huge, Ns ex_reply_huge, []) ([], [ex_rr 700], [])"
    by (simp add: ex_reply_huge_def)
  have n: "next_overflows wire_len ex_reply_huge ex_opt_hdr [] [] [ex_rr 700] []"
    by (simp add: next_overflows_def new_frag_def wire_len_def ex_reply_huge_def rr_len_ex_rr
        ex_question_def ex_opt_hdr_def local_opt_def)
  from single_rr_overflow_truncated[OF o p n] o p n show ?thesis
    by (simp add: ex_reply_huge_def)
qed

section \<open>The descriptors of the fragments\<close>

lemma scan_options_stamped:
  "scan_options (map (fix_option K N) (os @ [local_opt])) = Some (uint K, uint N)"
  by (induction os) (auto simp: fix_option_def local_opt_def FRAG_CODE_def)

lemma get_fragment_info_stamp:
  assumes "\<forall>r\<in>set (tl (Extra f)). \<not> is_OPT r"
  shows "get_fragment_info (stamp h os k n f)
     = Some (int (k mod 256), int (n mod 256))"
proof -
  have "uint (of_nat m :: byte) = int (m mod 256)" for m
    by (simp add: uint_nat unat_of_nat)
  then show ?thesis
    by (simp add: get_fragment_info_def stamp_def IsEdns0_def scan_options_stamped
        last_OPT_Cons[OF assms] del: map_append last_OPT.simps)
qed

lemma remove_edns0_is_OPT:
  "remove_edns0 rs = (Some r, rest) \<Longrightarrow> \<exists>h os. r = OPT h os"
proof (induction rs arbitrary: rest)
  case Nil
  then show ?case by simp
next
  case (Cons a rs)
  then show ?case
    by (cases a) (auto split: prod.splits)
qed

lemma map_fst_zip_fun:
  "length xs = length ys \<Longrightarrow> map (\<lambda>p. g (fst p)) (zip xs ys) = map g xs"
  by (induction xs ys rule: list_induct2) simp_all

text \<open>
  For a reply with one OPT record, a list returned by \<^verbatim>\<open>frag\<close> whose messages all have
  an additional section is a list of fragments (the single truncated message has none).
  Fragment \<open>i\<close> of \<open>k\<close> carries the low eight bits of \<open>k\<close> and of \<open>i\<close>.
\<close>

lemma frag_descriptors:
  assumes "remove_edns0 (Extra reply) = (Some (OPT h os), re0)"
    and "\<forall>r\<in>set re0. \<not> is_OPT r"
    and "frag Len reply = Some fs"
    and "\<forall>f\<in>set fs. Extra f \<noteq> []"
  shows "map get_fragment_info fs
           = map (\<lambda>i. Some (int (length fs mod 256), int (i mod 256))) [0..<length fs]"
  using frag_cases[OF assms(1,2), of Len]
proof (elim disjE conjE exE)
  assume "frag Len reply = Some [truncated_reply (new_frag reply h os)]"
  with assms(3) have "fs = [truncated_reply (new_frag reply h os)]"
    by simp
  with assms(4) show ?thesis
    by (simp add: truncated_reply_def)
next
  fix new :: "msg list"
  assume no: "\<forall>f\<in>set new. \<forall>r\<in>set (tl (Extra f)). \<not> is_OPT r"
  assume "frag Len reply
            = Some (map (\<lambda>(i, f). stamp h os (length new) i f) (zip [0..<length new] new))"
  with assms(3) have fs: "fs = map (\<lambda>(i, f). stamp h os (length new) i f)
                                (zip [0..<length new] new)"
    by simp
  then have l: "length fs = length new" by simp
  have "get_fragment_info (stamp h os (length new) (fst p) (snd p))
          = Some (int (length new mod 256), int (fst p mod 256))"
    if "p \<in> set (zip [0..<length new] new)" for p
  proof -
    from that have "snd p \<in> set new"
      using set_zip_rightD[of "fst p" "snd p" "[0..<length new]" new] by simp
    with no have "\<forall>r\<in>set (tl (Extra (snd p))). \<not> is_OPT r" by blast
    then show ?thesis by (rule get_fragment_info_stamp)
  qed
  then have "map get_fragment_info fs
          = map (\<lambda>p. Some (int (length new mod 256), int (fst p mod 256)))
              (zip [0..<length new] new)"
    unfolding fs by (simp add: case_prod_unfold)
  also have "\<dots> = map (\<lambda>i. Some (int (length new mod 256), int (i mod 256)))
                     [0..<length new]"
    using map_fst_zip_fun[of "[0..<length new]" new
            "\<lambda>i. Some (int (length new mod 256), int (i mod 256))"]
    by simp
  finally show ?thesis
    using l by simp
qed

text \<open>
  Claim C5, for a reply with one OPT record and at most 255 fragments. When \<^verbatim>\<open>frag\<close>
  returns \<open>k\<close> fragments of such a reply and \<open>k\<close> is at most 255, the descriptor read from
  fragment \<open>i\<close> is the total \<open>k\<close> and the sequence number \<open>i\<close>; so the sequence numbers are
  exactly 0 to \<open>k - 1\<close>.
\<close>

theorem fragment_numbering:
  assumes "remove_edns0 (Extra reply) = (Some (OPT h os), re0)"
    and "\<forall>r\<in>set re0. \<not> is_OPT r"
    and "frag Len reply = Some fs"
    and "\<forall>f\<in>set fs. Extra f \<noteq> []"
    and "length fs \<le> 255"
  shows "map get_fragment_info fs
           = map (\<lambda>i. Some (int (length fs), int i)) [0..<length fs]"
proof -
  have "map (\<lambda>i. Some (int (length fs mod 256), int (i mod 256))) [0..<length fs]
          = map (\<lambda>i. Some (int (length fs), int i)) [0..<length fs]"
    using assms(5) by (intro map_cong) auto
  with frag_descriptors[OF assms(1-4)] show ?thesis by simp
qed

lemma wire_len_ex_reply: "wire_len (ex_reply n) = 30 + 253 * n"
  by (simp add: wire_len_def ex_reply_def rr_len_ex_rr ex_question_def ex_opt_hdr_def
      sum_list_replicate)

lemma ex_fill_frag:
  "fill_frag wire_len (new_frag (ex_reply m) ex_opt_hdr []) (replicate (Suc n) (ex_rr 240)) [] []
     = (ex_frag m, replicate n (ex_rr 240), [], [])"
  by (cases n)
     (simp_all add: fill_frag_def new_frag_def ex_frag_def wire_len_def ex_reply_def
        rr_len_ex_rr ex_question_def ex_opt_hdr_def local_opt_def)

lemma ex_frag_loop:
  "frag_loop wire_len (ex_reply m) ex_opt_hdr [] (replicate (Suc n) (ex_rr 240)) [] [] acc
     = Break (acc @ replicate (Suc n) (ex_frag m))"
proof (induction n arbitrary: acc)
  case 0
  have "\<not> (Answer (ex_frag m) = [] \<and> Ns (ex_frag m) = [] \<and> length (Extra (ex_frag m)) = 1)"
    by (simp add: ex_frag_def)
  from frag_loop_pass_Break[OF ex_fill_frag[of m 0] this] show ?case
    by simp
next
  case (Suc n)
  have np: "\<not> (Answer (ex_frag m) = [] \<and> Ns (ex_frag m) = [] \<and> length (Extra (ex_frag m)) = 1)"
    by (simp add: ex_frag_def)
  have ne: "\<not> (replicate (Suc n) (ex_rr 240) = [] \<and> ([]::rr list) = [] \<and> ([]::rr list) = [])"
    by simp
  from frag_loop_pass_next[OF ex_fill_frag[of m "Suc n"] np ne, of acc] Suc[of "acc @ [ex_frag m]"]
  show ?case
    by (simp add: replicate_app_Cons_same)
qed

lemma frag_ex_reply: "frag wire_len (ex_reply (Suc n)) = Some (ex_stamped (Suc n))"
proof -
  have o: "remove_edns0 (Extra (ex_reply (Suc n))) = (Some (OPT ex_opt_hdr []), [])"
    by (simp add: ex_reply_def)
  have l: "frag_loop wire_len (ex_reply (Suc n)) ex_opt_hdr []
             (Answer (ex_reply (Suc n))) (Ns (ex_reply (Suc n))) [] []
           = Break (replicate (Suc n) (ex_frag (Suc n)))"
    using ex_frag_loop[of "Suc n" n "[]"] by (simp add: ex_reply_def)
  have "frag_of wire_len (ex_reply (Suc n)) ex_opt_hdr [] (ex_frag (Suc n))"
    by (simp add: frag_of_def ex_frag_def new_frag_def wire_len_def ex_reply_def
        rr_len_ex_rr ex_question_def ex_opt_hdr_def local_opt_def)
  then have "list_all (frag_of wire_len (ex_reply (Suc n)) ex_opt_hdr [])
               (replicate (Suc n) (ex_frag (Suc n)))"
    by (simp add: list_all_iff)
  moreover have "\<forall>f\<in>set (replicate (Suc n) (ex_frag (Suc n))).
                   \<forall>r\<in>set (tl (Extra f)). \<not> is_OPT r"
    by (simp add: ex_frag_def new_frag_def)
  ultimately
  have "fixup (Suc n) 0 (replicate (Suc n) (ex_frag (Suc n)))
          = Some (map (\<lambda>(i, f). stamp ex_opt_hdr [] (Suc n) i f)
                    (zip [0..<Suc n] (replicate (Suc n) (ex_frag (Suc n)))))"
    using fixup_frags[of wire_len "ex_reply (Suc n)" ex_opt_hdr "[]"
            "replicate (Suc n) (ex_frag (Suc n))" "Suc n" 0]
    by simp
  also have "zip [0..<Suc n] (replicate (Suc n) (ex_frag (Suc n)))
               = map (\<lambda>i. (i, ex_frag (Suc n))) [0..<Suc n]"
    by (rule nth_equalityI) (simp_all del: upt_Suc replicate_Suc)
  finally have "fixup (Suc n) 0 (replicate (Suc n) (ex_frag (Suc n))) = Some (ex_stamped (Suc n))"
    by (simp add: ex_stamped_def comp_def del: upt_Suc)
  with l show ?thesis
    by (simp add: frag_with_OPT[OF o] del: replicate_Suc)
qed

lemma ex_frag_tl: "\<forall>r\<in>set (tl (Extra (ex_frag n))). \<not> is_OPT r"
  by (simp add: ex_frag_def new_frag_def)

lemma frag_ex_two_opt: "frag wire_len (ex_two_opt [] []) = Some [ex_two_opt_frag]"
proof -
  have o: "remove_edns0 (Extra (ex_two_opt [] []))
             = (Some (OPT ex_opt_hdr []), [ex_rr 4, OPT (ex_opt_hdr\<lparr>Class := 1232\<rparr>) []])"
    by (simp add: ex_two_opt_def)
  have f: "fill_frag wire_len (new_frag (ex_two_opt [] []) ex_opt_hdr []) [ex_rr 4] []
             [ex_rr 4, OPT (ex_opt_hdr\<lparr>Class := 1232\<rparr>) []]
           = ((ex_two_opt [] [])\<lparr>Extra := [OPT ex_opt_hdr [local_opt], ex_rr 4,
                                            OPT (ex_opt_hdr\<lparr>Class := 1232\<rparr>) []]\<rparr>,
              [], [], [])"
    by (simp add: fill_frag_def new_frag_def wire_len_def ex_two_opt_def rr_len_ex_rr
        ex_question_def ex_opt_hdr_def local_opt_def)
  have "frag_loop wire_len (ex_two_opt [] []) ex_opt_hdr [] [ex_rr 4] []
          [ex_rr 4, OPT (ex_opt_hdr\<lparr>Class := 1232\<rparr>) []] []
        = Break ([] @ [(ex_two_opt [] [])\<lparr>Extra := [OPT ex_opt_hdr [local_opt], ex_rr 4,
                                            OPT (ex_opt_hdr\<lparr>Class := 1232\<rparr>) []]\<rparr>])"
    by (rule frag_loop_pass_Break[OF f]) (simp_all add: ex_two_opt_def)
  then have "frag_loop wire_len (ex_two_opt [] []) ex_opt_hdr [] (Answer (ex_two_opt [] []))
          (Ns (ex_two_opt [] [])) [ex_rr 4, OPT (ex_opt_hdr\<lparr>Class := 1232\<rparr>) []] []
        = Break [(ex_two_opt [] [])\<lparr>Extra := [OPT ex_opt_hdr [local_opt], ex_rr 4,
                                            OPT (ex_opt_hdr\<lparr>Class := 1232\<rparr>) []]\<rparr>]"
    by (simp add: ex_two_opt_def)
  then show ?thesis
    by (simp add: frag_with_OPT[OF o] fixup_frag_def ex_two_opt_frag_def local_opt_def
        ex_rr_def)
qed

lemma ex_stamped_nth:
  "i < n \<Longrightarrow> ex_stamped n ! i = stamp ex_opt_hdr [] n i (ex_frag n)"
  by (simp add: ex_stamped_def)

lemma ex_stamped_Extra:
  "f \<in> set (ex_stamped n) \<Longrightarrow> Extra f \<noteq> []"
  by (auto simp: ex_stamped_def stamp_def)

theorem fragment_numbering_witness:
  "remove_edns0 (Extra (ex_reply 3)) = (Some (OPT ex_opt_hdr []), [])
   \<and> frag wire_len (ex_reply 3) = Some (ex_stamped 3)
   \<and> length (ex_stamped 3) = 3
   \<and> Extra (ex_stamped 3 ! 0) \<noteq> []
   \<and> Extra (ex_stamped 3 ! 1) \<noteq> []
   \<and> Extra (ex_stamped 3 ! 2) \<noteq> []
   \<and> map get_fragment_info (ex_stamped 3) = [Some (3, 0), Some (3, 1), Some (3, 2)]"
proof -
  have f: "frag wire_len (ex_reply 3) = Some (ex_stamped 3)"
    using frag_ex_reply[of 2] by (simp add: numeral_3_eq_3)
  have e: "\<forall>f\<in>set (ex_stamped 3). Extra f \<noteq> []"
    using ex_stamped_Extra by blast
  have l: "length (ex_stamped 3) = 3"
    by (simp add: ex_stamped_def)
  have u: "[0..<3] = [0, 1, 2]"
    by (simp add: upt_rec)
  have o: "remove_edns0 (Extra (ex_reply 3)) = (Some (OPT ex_opt_hdr []), [])"
    by (simp add: ex_reply_def)
  have n: "\<forall>r\<in>set []. \<not> is_OPT r"
    by simp
  from fragment_numbering[OF o n f e] o f e l u show ?thesis
    by (simp add: ex_stamped_nth stamp_def)
qed

text \<open>
  The claim as the specification states it fails twice. With 256 fragments the octets
  wrap round: every fragment carries the total 0. And on a reply with two OPT records the
  fix-up goes to the last OPT record of the fragment, which is the second OPT record of
  the reply and not the copy that holds the fragment option: the one fragment keeps the
  octets 0 and 0, and the client proxy, which reads the last OPT record too, finds no
  descriptor at all.
\<close>

theorem fragment_numbering_counterexample:
  "frag wire_len (ex_reply 256) = Some (ex_stamped 256)
   \<and> length (ex_stamped 256) = 256
   \<and> Extra (ex_stamped 256 ! 0) \<noteq> []
   \<and> get_fragment_info (ex_stamped 256 ! 0) = Some (0, 0)
   \<and> get_fragment_info (ex_stamped 256 ! 255) = Some (0, 255)
   \<and> Extra (ex_two_opt [] [])
       = [OPT ex_opt_hdr [], ex_rr 4, OPT (ex_opt_hdr\<lparr>Class := 1232\<rparr>) []]
   \<and> frag wire_len (ex_two_opt [] []) = Some [ex_two_opt_frag]
   \<and> Extra ex_two_opt_frag
       = [OPT ex_opt_hdr [EDNS0_LOCAL FRAG_CODE [0, 0]], ex_rr 4,
          OPT (ex_opt_hdr\<lparr>Class := 1232\<rparr>) []]
   \<and> get_fragment_info ex_two_opt_frag = Some (- 1, - 1)"
proof -
  have f: "frag wire_len (ex_reply 256) = Some (ex_stamped 256)"
    using frag_ex_reply[of 255] by simp
  have l: "length (ex_stamped 256) = 256"
    by (simp add: ex_stamped_def)
  have g: "get_fragment_info ex_two_opt_frag = Some (- 1, - 1)"
    by (simp add: get_fragment_info_def IsEdns0_def ex_two_opt_frag_def ex_rr_def)
  have e: "Extra (ex_two_opt [] [])
       = [OPT ex_opt_hdr [], ex_rr 4, OPT (ex_opt_hdr\<lparr>Class := 1232\<rparr>) []]"
    by (simp add: ex_two_opt_def)
  have e': "Extra ex_two_opt_frag
       = [OPT ex_opt_hdr [EDNS0_LOCAL FRAG_CODE [0, 0]], ex_rr 4,
          OPT (ex_opt_hdr\<lparr>Class := 1232\<rparr>) []]"
    by (simp add: ex_two_opt_frag_def)
  from f l g e e' frag_ex_two_opt show ?thesis
    by (simp add: ex_stamped_nth get_fragment_info_stamp[OF ex_frag_tl]) (simp add: stamp_def)
qed

text \<open>
  Claim C6, run on the reply with 256 answer records. The specification asks for one
  truncated message when more than 255 fragments are needed. \<^verbatim>\<open>frag\<close> has no such test:
  it returns the 256 fragments, none of them truncated, and writes the octets
  \<^verbatim>\<open>byte(256)\<close>, which is 0, and \<^verbatim>\<open>byte(n)\<close> into each.
\<close>

theorem frag_256_fragments:
  "wire_len (ex_reply 256) = 64798
   \<and> frag wire_len (ex_reply 256) = Some (ex_stamped 256)
   \<and> length (ex_stamped 256) = 256
   \<and> Truncated (MsgHdr (ex_stamped 256 ! 0)) = False
   \<and> Answer (ex_stamped 256 ! 0) = [ex_rr 240]
   \<and> frag_option (ex_stamped 256 ! 0) = Some (EDNS0_LOCAL FRAG_CODE [0, 0])
   \<and> frag_option (ex_stamped 256 ! 1) = Some (EDNS0_LOCAL FRAG_CODE [0, 1])"
proof -
  have f: "frag wire_len (ex_reply 256) = Some (ex_stamped 256)"
    using frag_ex_reply[of 255] by simp
  have l: "length (ex_stamped 256) = 256"
    by (simp add: ex_stamped_def)
  have s: "frag_option (stamp ex_opt_hdr [] 256 i (ex_frag 256))
             = Some (EDNS0_LOCAL FRAG_CODE [0, of_nat i])" for i
    by (simp add: frag_option_def stamp_def IsEdns0_def fix_option_def local_opt_def
        ex_frag_def new_frag_def)
  have t: "Truncated (MsgHdr (stamp ex_opt_hdr [] 256 i (ex_frag 256))) = False
           \<and> Answer (stamp ex_opt_hdr [] 256 i (ex_frag 256)) = [ex_rr 240]" for i
    by (simp add: stamp_def ex_frag_def new_frag_def ex_reply_def ex_hdr_def)
  from f l s[of 0] s[of 1] t[of 0] wire_len_ex_reply[of 256] show ?thesis
    by (simp add: ex_stamped_nth)
qed

section \<open>Fragmenting and reassembling\<close>

lemma foldl_append_frag:
  "foldl append_frag m fs =
     m\<lparr>Answer := Answer m @ concat (map Answer fs),
       Ns := Ns m @ concat (map Ns fs),
       Extra := Extra m @ concat (map (\<lambda>f. filter (\<lambda>r. \<not> is_OPT r) (Extra f)) fs)\<rparr>"
  by (induction fs arbitrary: m) (simp_all add: append_frag_def)

lemma rebuild_loop_present:
  "\<forall>n\<in>set ns. map_of frags n = Some (g n) \<Longrightarrow>
     rebuild_loop frags ns m = Some (foldl append_frag m (map g ns))"
  by (induction ns arbitrary: m) simp_all

lemma upto_as_upt: "[1..int k - 1] = map int [1..<k]"
proof (induction k)
  case 0
  then show ?case by simp
next
  case (Suc k)
  show ?case
  proof (cases k)
    case 0
    then show ?thesis by simp
  next
    case (Suc j)
    then have "[1..int (Suc k) - 1] = [1..int k - 1] @ [int k]"
      using upto_rec2[of 1 "int k"] by simp
    with Suc.IH Suc show ?thesis by simp
  qed
qed

text \<open>
  When the map holds fragment \<open>i\<close> under the key \<open>i\<close> for each \<open>i\<close> below the total, the
  rebuilding loop appends the fragments after the first to the first, in order.
\<close>

lemma rebuild_present:
  assumes "fs \<noteq> []"
    and "\<forall>i<length fs. map_of frags (int i) = Some (fs ! i)"
  shows "rebuild frags (int (length fs)) = Some (foldl append_frag (hd fs) (tl fs))"
proof -
  from assms have z: "map_of frags 0 = Some (hd fs)"
    by (cases fs) auto
  have "\<forall>n\<in>set (map int [1..<length fs]). map_of frags n = Some (fs ! nat n)"
    using assms(2) by auto
  from rebuild_loop_present[OF this, of "hd fs"]
  have "rebuild_loop frags (map int [1..<length fs]) (hd fs)
          = Some (foldl append_frag (hd fs) (map (\<lambda>i. fs ! i) [1..<length fs]))"
    by (simp add: comp_def)
  moreover have "map (\<lambda>i. fs ! i) [1..<length fs] = tl fs"
    by (rule nth_equalityI) (simp_all add: nth_tl)
  ultimately show ?thesis
    using z by (simp add: rebuild_def upto_as_upt)
qed

text \<open>
  The collecting loop on responses that carry pairwise different sequence numbers: it
  stores each under its number until the map has the announced size.
\<close>

lemma update_fresh:
  "k \<notin> fst ` set al \<Longrightarrow> AList.update k v al = al @ [(k, v)]"
  by (induction al) auto

lemma collect_distinct:
  assumes "\<forall>m\<in>set (had @ rest). MsgId (MsgHdr m) = MsgId (MsgHdr request)"
    and "\<forall>m\<in>set (had @ rest). get_fragment_info m \<noteq> None"
    and "distinct (map seq_of (had @ rest))"
  shows "collect request (int (length (had @ rest))) (zip (map seq_of had) had) (map Some rest)
           = Frags (zip (map seq_of (had @ rest)) (had @ rest))"
  using assms
proof (induction rest arbitrary: had)
  case Nil
  then show ?case by (simp add: collect_done)
next
  case (Cons m rest)
  have app: "(had @ [m]) @ rest = had @ m # rest"
    by simp
  from Cons.prems(2) have "get_fragment_info m \<noteq> None"
    by simp
  then obtain n s where i: "get_fragment_info m = Some (n, s)"
    by (cases "get_fragment_info m") auto
  then have s: "seq_of m = s"
    by (simp add: seq_of_def)
  from Cons.prems(1) have "MsgId (MsgHdr m) = MsgId (MsgHdr request)"
    by simp
  then have w: "wait_for_response request (map Some (m # rest)) = (Some m, map Some rest)"
    by simp
  have l: "int (length (zip (map seq_of had) had)) < int (length (had @ m # rest))"
    by simp
  from Cons.prems(3) have "seq_of m \<notin> set (map seq_of had)"
    by simp
  moreover have "fst ` set (zip (map seq_of had) had) \<subseteq> set (map seq_of had)"
    by (auto dest: set_zip_leftD)
  ultimately have "s \<notin> fst ` set (zip (map seq_of had) had)"
    using s by blast
  then have u: "AList.update s m (zip (map seq_of had) had)
                  = zip (map seq_of (had @ [m])) (had @ [m])"
    using s by (simp add: update_fresh)
  have "collect request (int (length ((had @ [m]) @ rest)))
          (zip (map seq_of (had @ [m])) (had @ [m])) (map Some rest)
        = Frags (zip (map seq_of ((had @ [m]) @ rest)) ((had @ [m]) @ rest))"
    using Cons.prems unfolding app[symmetric] by (rule Cons.IH)
  then have "collect request (int (length (had @ m # rest)))
          (zip (map seq_of (had @ [m])) (had @ [m])) (map Some rest)
        = Frags (zip (map seq_of (had @ m # rest)) (had @ m # rest))"
    unfolding app .
  with collect_step[OF l w i] u show ?case
    by simp
qed

lemma map_of_zip_seq:
  "distinct (map f ps) \<Longrightarrow> p \<in> set ps \<Longrightarrow> map_of (zip (map f ps) ps) (f p) = Some p"
  by (induction ps) (auto simp: rev_image_eqI)
text \<open>
  Fragments that carry the total and their own index, all with the identifier of the
  request, are reassembled in whatever order they arrive.
\<close>

lemma reassemble_numbered:
  assumes "fs \<noteq> []"
    and "map get_fragment_info fs = map (\<lambda>i. Some (int (length fs), int i)) [0..<length fs]"
    and "\<forall>m\<in>set fs. MsgId (MsgHdr m) = MsgId (MsgHdr request)"
    and "mset ps = mset fs"
  shows "reassemble request (map Some ps) = Rebuilt (foldl append_frag (hd fs) (tl fs))"
proof -
  have info: "get_fragment_info (fs ! i) = Some (int (length fs), int i)" if "i < length fs" for i
  proof -
    from that have "map get_fragment_info fs ! i = get_fragment_info (fs ! i)"
      by simp
    with assms(2) that show ?thesis by simp
  qed
  have seq: "seq_of (fs ! i) = int i" if "i < length fs" for i
    using info[OF that] by (simp add: seq_of_def)
  have "map seq_of fs = map int [0..<length fs]"
    by (rule nth_equalityI) (simp_all add: seq)
  then have df: "distinct (map seq_of fs)"
    by (simp add: distinct_map)
  from assms(4) have ms: "mset (map seq_of ps) = mset (map seq_of fs)"
    by simp
  have d: "distinct (map seq_of ps)"
    by (rule iffD2[OF mset_eq_imp_distinct_iff[OF ms] df])
  from assms(4) have sets: "set ps = set fs"
    by (rule mset_eq_setD)
  from assms(4) have len: "length ps = length fs"
    by (rule mset_eq_length)
  have ids: "\<forall>m\<in>set ps. MsgId (MsgHdr m) = MsgId (MsgHdr request)"
    using assms(3) unfolding sets .
  have known: "get_fragment_info m = Some (int (length fs), seq_of m)" if "m \<in> set ps" for m
  proof -
    from that have "m \<in> set fs"
      unfolding sets .
    then obtain i where i: "i < length fs" "m = fs ! i"
      unfolding in_set_conv_nth by blast
    from info[OF i(1)] seq[OF i(1)] i(2) show ?thesis
      by simp
  qed
  have some: "\<forall>m\<in>set ps. get_fragment_info m \<noteq> None"
  proof
    fix m assume "m \<in> set ps"
    from known[OF this] show "get_fragment_info m \<noteq> None"
      by simp
  qed
  from assms(1) len obtain p rest where ps: "ps = p # rest"
    by (cases ps) auto
  have ip: "get_fragment_info p = Some (int (length fs), seq_of p)"
    by (rule known) (simp add: ps)
  have "MsgId (MsgHdr p) = MsgId (MsgHdr request)"
    using ids by (simp add: ps)
  then have w: "wait_for_response request (map Some ps) = (Some p, map Some rest)"
    unfolding ps by simp
  have app: "[p] @ rest = ps"
    by (simp add: ps)
  have "collect request (int (length ([p] @ rest))) (zip (map seq_of [p]) [p]) (map Some rest)
          = Frags (zip (map seq_of ([p] @ rest)) ([p] @ rest))"
  proof (rule collect_distinct)
    show "\<forall>m\<in>set ([p] @ rest). MsgId (MsgHdr m) = MsgId (MsgHdr request)"
      unfolding app by (rule ids)
    show "\<forall>m\<in>set ([p] @ rest). get_fragment_info m \<noteq> None"
      unfolding app by (rule some)
    show "distinct (map seq_of ([p] @ rest))"
      unfolding app by (rule d)
  qed
  then have c: "collect request (int (length fs)) [(seq_of p, p)] (map Some rest)
             = Frags (zip (map seq_of ps) ps)"
    unfolding app len by simp
  have "\<forall>i<length fs. map_of (zip (map seq_of ps) ps) (int i) = Some (fs ! i)"
  proof (intro allI impI)
    fix i assume i: "i < length fs"
    then have "fs ! i \<in> set ps"
      unfolding sets by simp
    from map_of_zip_seq[OF d this] seq[OF i]
    show "map_of (zip (map seq_of ps) ps) (int i) = Some (fs ! i)"
      by simp
  qed
  from rebuild_present[OF assms(1) this]
  have r: "rebuild (zip (map seq_of ps) ps) (int (length fs))
             = Some (foldl append_frag (hd fs) (tl fs))" .
  have n: "int (length fs) \<noteq> - 1"
    by simp
  show ?thesis
    unfolding reassemble_def w
    by (simp only: prod.case option.case ip n if_False c collected.case r)
qed

lemma foldl_append_stamped:
  assumes "length ns = length rest"
    and "\<forall>f\<in>set rest. \<forall>r\<in>set (tl (Extra f)). \<not> is_OPT r"
  shows "foldl append_frag m (map (\<lambda>(i, f). stamp h os k i f) (zip ns rest)) =
           m\<lparr>Answer := Answer m @ concat (map Answer rest),
             Ns := Ns m @ concat (map Ns rest),
             Extra := Extra m @ concat (map (\<lambda>f. tl (Extra f)) rest)\<rparr>"
  using assms
proof (induction ns rest arbitrary: m rule: list_induct2)
  case Nil
  then show ?case by simp
next
  case (Cons n ns f rest)
  have "filter (\<lambda>r. \<not> is_OPT r) (tl (Extra f)) = tl (Extra f)"
    using Cons.prems by (auto intro: filter_True)
  then have "append_frag m (stamp h os k n f)
               = m\<lparr>Answer := Answer m @ Answer f, Ns := Ns m @ Ns f,
                    Extra := Extra m @ tl (Extra f)\<rparr>"
    by (simp add: append_frag_def stamp_def)
  with Cons.IH[of "append_frag m (stamp h os k n f)"] Cons.prems show ?case
    by simp
qed

lemma remove_edns0_split:
  "remove_edns0 rs = (Some r, rest) \<Longrightarrow>
     \<exists>pre post. rs = pre @ r # post \<and> rest = pre @ post \<and> (\<forall>x\<in>set pre. \<not> is_OPT x)"
proof (induction rs arbitrary: rest)
  case Nil
  then show ?case by simp
next
  case (Cons a rs)
  show ?case
  proof (cases "is_OPT a")
    case True
    with Cons.prems show ?thesis
      by (intro exI[of _ "[]"] exI[of _ rs]) auto
  next
    case False
    with Cons.prems obtain rest' where r: "remove_edns0 rs = (Some r, rest')" "rest = a # rest'"
      by (auto split: prod.splits)
    from Cons.IH[OF r(1)] obtain pre post where
      "rs = pre @ r # post" "rest' = pre @ post" "\<forall>x\<in>set pre. \<not> is_OPT x"
      by blast
    with False r(2) show ?thesis
      by (intro exI[of _ "a # pre"] exI[of _ post]) simp
  qed
qed

text \<open>
  Claim C1, for a reply with one OPT record that carries no fragment option of its own,
  and for at most 255 fragments. The fragments that \<^verbatim>\<open>frag\<close> returns, read by the client
  proxy in any order as responses to its query, are rebuilt into the reply itself, except
  for its additional section: the OPT record stands first there and has the fragment
  option of fragment 0 appended, and the other records follow in their order.
\<close>

theorem fragment_then_reassemble:
  assumes "remove_edns0 (Extra reply) = (Some (OPT h os), re0)"
    and "\<forall>r\<in>set re0. \<not> is_OPT r"
    and "\<forall>opt\<in>set os. Code opt \<noteq> FRAG_CODE"
    and "frag Len reply = Some fs"
    and "\<forall>f\<in>set fs. Extra f \<noteq> []"
    and "length fs \<le> 255"
    and "MsgId (MsgHdr reply) = MsgId (MsgHdr request)"
    and "mset ps = mset fs"
  shows "reassemble request (map Some ps) =
           Rebuilt (reply\<lparr>Extra := OPT h (os @ [EDNS0_LOCAL FRAG_CODE [of_nat (length fs), 0]])
                                     # re0\<rparr>)
         \<and> (\<exists>pre post. Extra reply = pre @ OPT h os # post \<and> re0 = pre @ post)"
proof -
  from frag_cases[OF assms(1,2), of Len] obtain new where
    n: "new \<noteq> []" "list_all (frag_of Len reply h os) new"
       "concat (map Answer new) = Answer reply" "concat (map Ns new) = Ns reply"
       "concat (map (\<lambda>f. tl (Extra f)) new) = re0"
       "fs = map (\<lambda>(i, f). stamp h os (length new) i f) (zip [0..<length new] new)"
  proof (elim disjE conjE exE)
    assume "frag Len reply = Some [truncated_reply (new_frag reply h os)]"
    with assms(4) have "fs = [truncated_reply (new_frag reply h os)]"
      by simp
    with assms(5) show ?thesis
      by (simp add: truncated_reply_def)
  next
    fix new :: "msg list"
    assume "new \<noteq> []" "list_all (frag_of Len reply h os) new"
       "concat (map Answer new) = Answer reply" "concat (map Ns new) = Ns reply"
       "concat (map (\<lambda>f. tl (Extra f)) new) = re0"
       "frag Len reply = Some (map (\<lambda>(i, f). stamp h os (length new) i f)
                                 (zip [0..<length new] new))"
    with assms(4) that show ?thesis by simp
  qed
  from n(6) have len: "length fs = length new"
    by simp
  from n(1) obtain f0 rest where new: "new = f0 # rest"
    by (cases new) auto
  have u: "[0..<length new] = 0 # [1..<length new]"
    using n(1) by (simp add: upt_rec)
  have fs: "fs = stamp h os (length new) 0 f0
                 # map (\<lambda>(i, f). stamp h os (length new) i f) (zip [1..<length new] rest)"
    unfolding n(6) u using new by simp
  have f0: "frag_of Len reply h os f0"
    using n(2) new by simp
  have noopt: "\<forall>f\<in>set rest. \<forall>r\<in>set (tl (Extra f)). \<not> is_OPT r"
    using n(5) assms(2) new by auto
  have lr: "length [1..<length new] = length rest"
    using new by (simp del: upt_Suc)
  have ids: "\<forall>m\<in>set fs. MsgId (MsgHdr m) = MsgId (MsgHdr request)"
  proof
    fix m assume "m \<in> set fs"
    then obtain i f where "f \<in> set new" "m = stamp h os (length new) i f"
      unfolding n(6) by (auto dest: set_zip_rightD)
    moreover from this n(2) have "frag_of Len reply h os f"
      by (simp add: list_all_iff)
    then have "MsgHdr f = MsgHdr reply"
      unfolding frag_of_def by (metis msg.select_convs(1) msg.surjective msg.update_convs(4,5,6))
    ultimately show "MsgId (MsgHdr m) = MsgId (MsgHdr request)"
      using assms(7) by (simp add: stamp_def)
  qed
  have num: "map get_fragment_info fs
               = map (\<lambda>i. Some (int (length fs), int i)) [0..<length fs]"
  proof -
    have "map (\<lambda>i. Some (int (length fs mod 256), int (i mod 256))) [0..<length fs]
            = map (\<lambda>i. Some (int (length fs), int i)) [0..<length fs]"
      using assms(6) by (intro map_cong) auto
    with frag_descriptors[OF assms(1,2,4,5)] show ?thesis by simp
  qed
  have ne: "fs \<noteq> []"
    using fs by simp
  from reassemble_numbered[OF ne num ids assms(8)]
  have "reassemble request (map Some ps) = Rebuilt (foldl append_frag (hd fs) (tl fs))" .
  also have "foldl append_frag (hd fs) (tl fs)
      = (stamp h os (length new) 0 f0)\<lparr>
           Answer := Answer (stamp h os (length new) 0 f0) @ concat (map Answer rest),
           Ns := Ns (stamp h os (length new) 0 f0) @ concat (map Ns rest),
           Extra := Extra (stamp h os (length new) 0 f0)
                    @ concat (map (\<lambda>f. tl (Extra f)) rest)\<rparr>"
    unfolding fs using foldl_append_stamped[OF lr noopt] by simp
  also have "\<dots> = reply\<lparr>Extra := OPT h (os @ [EDNS0_LOCAL FRAG_CODE [of_nat (length fs), 0]])
                                  # re0\<rparr>"
  proof -
    have m: "map (fix_option K N) os = os" for K N
      using assms(3) by (induction os) (simp_all add: fix_option_def)
    have o: "map (fix_option (of_nat (length new)) 0) (os @ [local_opt])
               = os @ [EDNS0_LOCAL FRAG_CODE [of_nat (length fs), 0]]"
      by (simp add: m len fix_option_def local_opt_def)
    from f0 have e: "f0 = reply\<lparr>Answer := Answer f0, Ns := Ns f0,
                               Extra := OPT h (os @ [local_opt]) # tl (Extra f0)\<rparr>"
      by (simp add: frag_of_def)
    have a: "Answer f0 @ concat (map Answer rest) = Answer reply"
      and b: "Ns f0 @ concat (map Ns rest) = Ns reply"
      and c: "tl (Extra f0) @ concat (map (\<lambda>f. tl (Extra f)) rest) = re0"
      using n(3,4,5) new by simp_all
    show ?thesis
      apply (subst (1 2 3 4) e)
      apply (simp add: stamp_def o a b c del: map_append)
      done
  qed
  finally have r: "reassemble request (map Some ps) =
           Rebuilt (reply\<lparr>Extra := OPT h (os @ [EDNS0_LOCAL FRAG_CODE [of_nat (length fs), 0]])
                                     # re0\<rparr>)" .
  from remove_edns0_split[OF assms(1)] r show ?thesis
    by blast
qed
lemma ex_stamped_3: "ex_stamped 3 = [stamp ex_opt_hdr [] 3 0 (ex_frag 3),
                                     stamp ex_opt_hdr [] 3 1 (ex_frag 3),
                                     stamp ex_opt_hdr [] 3 2 (ex_frag 3)]"
  by (simp add: ex_stamped_def upt_rec numeral_2_eq_2)

theorem fragment_then_reassemble_witness:
  "remove_edns0 (Extra (ex_reply 3)) = (Some (OPT ex_opt_hdr []), [])
   \<and> frag wire_len (ex_reply 3) = Some (ex_stamped 3)
   \<and> length (ex_stamped 3) = 3
   \<and> MsgId (MsgHdr (ex_reply 3)) = MsgId (MsgHdr ex_query)
   \<and> mset [ex_stamped 3 ! 2, ex_stamped 3 ! 0, ex_stamped 3 ! 1] = mset (ex_stamped 3)
   \<and> reassemble ex_query
        [Some (ex_stamped 3 ! 2), Some (ex_stamped 3 ! 0), Some (ex_stamped 3 ! 1)]
       = Rebuilt ((ex_reply 3)\<lparr>Extra := [OPT ex_opt_hdr [EDNS0_LOCAL FRAG_CODE [3, 0]]]\<rparr>)"
proof -
  have o: "remove_edns0 (Extra (ex_reply 3)) = (Some (OPT ex_opt_hdr []), [])"
    by (simp add: ex_reply_def)
  have r: "\<forall>r\<in>set ([]::rr list). \<not> is_OPT r"
    by simp
  have c: "\<forall>opt\<in>set ([]::edns0 list). Code opt \<noteq> FRAG_CODE"
    by simp
  have f: "frag wire_len (ex_reply 3) = Some (ex_stamped 3)"
    using frag_ex_reply[of 2] by (simp add: numeral_3_eq_3)
  have e: "\<forall>f\<in>set (ex_stamped 3). Extra f \<noteq> []"
    using ex_stamped_Extra by blast
  have l: "length (ex_stamped 3) = 3"
    by (simp add: ex_stamped_def)
  then have l': "length (ex_stamped 3) \<le> 255"
    by simp
  have i: "MsgId (MsgHdr (ex_reply 3)) = MsgId (MsgHdr ex_query)"
    by (simp add: ex_reply_def ex_query_def)
  have m: "mset [ex_stamped 3 ! 2, ex_stamped 3 ! 0, ex_stamped 3 ! 1] = mset (ex_stamped 3)"
    by (simp add: ex_stamped_3)
  from fragment_then_reassemble[OF o r c f e l' i m] o f l i m show ?thesis
    by simp
qed

lemma reassemble_total_zero:
  assumes "get_fragment_info m = Some (0, 0)"
    and "MsgId (MsgHdr m) = MsgId (MsgHdr request)"
  shows "reassemble request (Some m # rds) = Rebuilt m"
  using assms by (simp add: reassemble_def collect_done rebuild_def)

lemma frag_ex_reply_dup: "frag wire_len ex_reply_dup = Some [ex_dup_frag]"
proof -
  let ?os = "[EDNS0_LOCAL FRAG_CODE [7]]"
  let ?f = "(new_frag ex_reply_dup ex_opt_hdr ?os)\<lparr>Answer := [ex_rr 4]\<rparr>"
  have ff: "fill_frag wire_len (new_frag ex_reply_dup ex_opt_hdr ?os) [ex_rr 4] [] []
              = (?f, [], [], [])"
    by (simp add: fill_frag_def new_frag_def wire_len_def ex_reply_dup_def rr_len_ex_rr
        ex_question_def ex_opt_hdr_def local_opt_def)
  have o: "remove_edns0 (Extra ex_reply_dup) = (Some (OPT ex_opt_hdr ?os), [])"
    by (simp add: ex_reply_dup_def)
  have "frag_loop wire_len ex_reply_dup ex_opt_hdr ?os [ex_rr 4] [] [] [] = Break [?f]"
    using frag_loop_pass_Break[OF ff, of "[]"] by simp
  then have "frag_loop wire_len ex_reply_dup ex_opt_hdr ?os (Answer ex_reply_dup)
               (Ns ex_reply_dup) [] [] = Break [?f]"
    by (simp add: ex_reply_dup_def)
  moreover have "fixup 1 0 [?f] = Some [ex_dup_frag]"
    by (simp add: fixup_frag_def new_frag_def fix_option_def local_opt_def ex_dup_frag_def
        ex_reply_dup_def)
  ultimately show ?thesis
    by (simp add: frag_with_OPT[OF o])
qed

lemma ex_reassemble_256:
  "reassemble ex_query (map Some (ex_stamped 256)) = Rebuilt (ex_stamped 256 ! 0)"
proof -
  have h: "ex_stamped 256 = ex_stamped 256 ! 0 # tl (ex_stamped 256)"
    by (rule nth_equalityI) (simp_all add: ex_stamped_def nth_tl nth_Cons split: nat.splits)
  have i: "get_fragment_info (ex_stamped 256 ! 0) = Some (0, 0)"
    by (simp add: ex_stamped_nth get_fragment_info_stamp[OF ex_frag_tl])
  have j: "MsgId (MsgHdr (ex_stamped 256 ! 0)) = MsgId (MsgHdr ex_query)"
    by (simp add: ex_stamped_nth stamp_def ex_frag_def new_frag_def ex_reply_def ex_query_def)
  have "reassemble ex_query (map Some (ex_stamped 256 ! 0 # tl (ex_stamped 256)))
          = Rebuilt (ex_stamped 256 ! 0)"
    using reassemble_total_zero[OF i j] by simp
  with h show ?thesis
    by simp
qed

text \<open>
  The claim as the specification states it fails on two replies. On the first, whose OPT
  record already carries an option with the fragment code, the fix-up overwrites the
  data of that option too, so the rebuilt OPT record is not the original one with an
  option added. On the second, which needs 256 fragments, the first fragment announces
  the total 0 and the client proxy rebuilds the reply from that fragment alone.
\<close>

theorem fragment_then_reassemble_counterexample:
  "frag wire_len ex_reply_dup = Some [ex_dup_frag]
   \<and> reassemble ex_query [Some ex_dup_frag] = Rebuilt ex_dup_frag
   \<and> Extra ex_reply_dup = [OPT ex_opt_hdr [EDNS0_LOCAL FRAG_CODE [7]]]
   \<and> Extra ex_dup_frag
       = [OPT ex_opt_hdr [EDNS0_LOCAL FRAG_CODE [1, 0], EDNS0_LOCAL FRAG_CODE [1, 0]]]
   \<and> frag wire_len (ex_reply 256) = Some (ex_stamped 256)
   \<and> reassemble ex_query (map Some (ex_stamped 256)) = Rebuilt (ex_stamped 256 ! 0)
   \<and> length (Answer (ex_stamped 256 ! 0)) = 1
   \<and> length (Answer (ex_reply 256)) = 256"
proof -
  have d: "reassemble ex_query [Some ex_dup_frag] = Rebuilt ex_dup_frag"
  proof -
    have "get_fragment_info ex_dup_frag = Some (1, 0)"
      by (simp add: get_fragment_info_def ex_dup_frag_def IsEdns0_def FRAG_CODE_def)
    moreover have "collect ex_query 1 [(0, ex_dup_frag)] [] = Frags [(0, ex_dup_frag)]"
      by (simp add: collect_done)
    moreover have "rebuild [(0, ex_dup_frag)] 1 = Some ex_dup_frag"
      by (simp add: rebuild_def)
    moreover have "MsgId (MsgHdr ex_dup_frag) = MsgId (MsgHdr ex_query)"
      by (simp add: ex_dup_frag_def ex_reply_dup_def ex_query_def)
    ultimately show ?thesis
      by (simp add: reassemble_def)
  qed
  have f: "frag wire_len (ex_reply 256) = Some (ex_stamped 256)"
    using frag_ex_reply[of 255] by simp
  note r = ex_reassemble_256
  have a: "length (Answer (ex_stamped 256 ! 0)) = 1"
    by (simp add: ex_stamped_nth stamp_def ex_frag_def)
  have b: "length (Answer (ex_reply 256)) = 256"
    by (simp add: ex_reply_def)
  from frag_ex_reply_dup d f r a b show ?thesis
    by (simp add: ex_reply_dup_def ex_dup_frag_def)
qed

section \<open>The size of the fragments\<close>

lemma rr_len_fix_options:
  assumes "\<forall>opt\<in>set os. Code opt = FRAG_CODE \<longrightarrow> length (Data opt) = 2"
  shows "sum_list (map (\<lambda>opt. 4 + length (Data opt)) (map (fix_option K N) os))
           = sum_list (map (\<lambda>opt. 4 + length (Data opt)) os)"
  using assms by (induction os) (simp_all add: fix_option_def)

text \<open>
  The fix-up keeps the encoded length of a fragment when every option with the fragment
  code that the OPT record of the backend already carries has two data octets, as the
  placeholder has.
\<close>

lemma wire_len_stamp:
  assumes "frag_of Len reply h os f"
    and "\<forall>opt\<in>set os. Code opt = FRAG_CODE \<longrightarrow> length (Data opt) = 2"
  shows "wire_len (stamp h os k n f) = wire_len f"
proof -
  have "\<forall>opt\<in>set (os @ [local_opt]). Code opt = FRAG_CODE \<longrightarrow> length (Data opt) = 2"
    using assms(2) by (simp add: local_opt_def)
  from rr_len_fix_options[OF this]
  have "rr_len (OPT h (map (fix_option (of_nat k) (of_nat n)) (os @ [local_opt])))
          = rr_len (OPT h (os @ [local_opt]))"
    by (simp del: map_append)
  moreover have "sum_list (map rr_len (Extra f))
      = rr_len (OPT h (os @ [local_opt])) + sum_list (map rr_len (tl (Extra f)))"
    by (subst frag_of_Extra[OF assms(1)]) simp
  ultimately show ?thesis
    by (simp add: wire_len_def stamp_def del: map_append)
qed

text \<open>
  Claim C2, for a reply with one OPT record that carries no option with the fragment
  code, or only such options of two data octets, and for a codec whose \<^verbatim>\<open>Len\<close> is never
  below the encoded length. When the header of the reply and the OPT copy fit in 512
  octets, which they do as soon as one record fits together with them, every message that
  \<^verbatim>\<open>frag\<close> returns has an encoded length of at most 512 octets, and the fix-up leaves
  the encoded length of each fragment as it was when the filling loops tested it.
\<close>

theorem fragments_fit:
  assumes "remove_edns0 (Extra reply) = (Some (OPT h os), re0)"
    and "\<forall>r\<in>set re0. \<not> is_OPT r"
    and "wire_len (new_frag reply h os) \<le> 512"
    and "\<forall>opt\<in>set os. Code opt = FRAG_CODE \<longrightarrow> length (Data opt) = 2"
    and "\<forall>m. wire_len m \<le> Len m"
  shows "\<exists>fs. frag Len reply = Some fs
           \<and> (\<forall>f\<in>set fs. wire_len f \<le> 512)
           \<and> (\<forall>all_frags.
                 frag_loop Len reply h os (Answer reply) (Ns reply) re0 [] = Break all_frags
                 \<longrightarrow> map wire_len fs = map wire_len all_frags)"
  using frag_cases[OF assms(1,2), of Len]
proof (elim disjE conjE exE)
  fix acc
  assume t: "frag Len reply = Some [truncated_reply (new_frag reply h os)]"
    and r: "frag_loop Len reply h os (Answer reply) (Ns reply) re0 [] = Return acc"
  have "wire_len (truncated_reply (new_frag reply h os)) \<le> wire_len (new_frag reply h os)"
    by (simp add: wire_len_def truncated_reply_def new_frag_def)
  with assms(3) t r show ?thesis
    by simp
next
  fix new :: "msg list"
  assume n: "list_all (frag_of Len reply h os) new"
    and b: "frag_loop Len reply h os (Answer reply) (Ns reply) re0 [] = Break new"
    and f: "frag Len reply
              = Some (map (\<lambda>(i, f). stamp h os (length new) i f) (zip [0..<length new] new))"
  let ?fs = "map (\<lambda>(i, f). stamp h os (length new) i f) (zip [0..<length new] new)"
  have same: "map wire_len ?fs = map wire_len new"
  proof (rule nth_equalityI)
    show "length (map wire_len ?fs) = length (map wire_len new)"
      by simp
  next
    fix i assume "i < length (map wire_len ?fs)"
    then have i: "i < length new"
      by simp
    with n have "frag_of Len reply h os (new ! i)"
      by (simp add: list_all_length)
    from wire_len_stamp[OF this assms(4)] i
    show "map wire_len ?fs ! i = map wire_len new ! i"
      by simp
  qed
  have fits: "\<forall>f\<in>set ?fs. wire_len f \<le> 512"
  proof
    fix g assume "g \<in> set ?fs"
    then have "wire_len g \<in> set (map wire_len ?fs)"
      by (simp only: set_map) (rule imageI)
    then have "wire_len g \<in> set (map wire_len new)"
      unfolding same .
    then obtain f where "f \<in> set new" "wire_len g = wire_len f"
      by auto
    moreover from this n have "Len f \<le> 512"
      by (simp add: list_all_iff frag_of_def)
    moreover from assms(5) have "wire_len f \<le> Len f"
      by (rule spec)
    ultimately show "wire_len g \<le> 512"
      by simp
  qed
  from f fits same b show ?thesis
    by simp
qed

lemma frag_ex_reply_padded:
  "frag ex_Len ex_reply_padded
     = Some [stamp ex_opt_hdr [] 2 0 (ex_reply_padded\<lparr>Answer := [ex_rr 200],
                                        Extra := [OPT ex_opt_hdr [local_opt]]\<rparr>),
             stamp ex_opt_hdr [] 2 1 (ex_reply_padded\<lparr>Answer := [ex_rr 200],
                                        Extra := [OPT ex_opt_hdr [local_opt]]\<rparr>)]"
proof -
  let ?f = "ex_reply_padded\<lparr>Answer := [ex_rr 200], Extra := [OPT ex_opt_hdr [local_opt]]\<rparr>"
  have o: "remove_edns0 (Extra ex_reply_padded) = (Some (OPT ex_opt_hdr []), [])"
    by (simp add: ex_reply_padded_def)
  have n: "new_frag ex_reply_padded ex_opt_hdr [] = ?f\<lparr>Answer := []\<rparr>"
    by (simp add: new_frag_def ex_reply_padded_def)
  have f2: "fill_frag ex_Len (new_frag ex_reply_padded ex_opt_hdr []) [ex_rr 200, ex_rr 200] [] []
              = (?f, [ex_rr 200], [], [])"
    by (simp add: fill_frag_def new_frag_def ex_Len_def wire_len_def ex_reply_padded_def
        rr_len_ex_rr ex_question_def ex_opt_hdr_def local_opt_def)
  have f1: "fill_frag ex_Len (new_frag ex_reply_padded ex_opt_hdr []) [ex_rr 200] [] []
              = (?f, [], [], [])"
    by (simp add: fill_frag_def new_frag_def ex_Len_def wire_len_def ex_reply_padded_def
        rr_len_ex_rr ex_question_def ex_opt_hdr_def local_opt_def)
  have np: "\<not> (Answer ?f = [] \<and> Ns ?f = [] \<and> length (Extra ?f) = 1)"
    by simp
  have "frag_loop ex_Len ex_reply_padded ex_opt_hdr [] [ex_rr 200, ex_rr 200] [] [] []
          = frag_loop ex_Len ex_reply_padded ex_opt_hdr [] [ex_rr 200] [] [] ([] @ [?f])"
    by (rule frag_loop_pass_next[OF f2 np]) simp
  also have "\<dots> = Break (([] @ [?f]) @ [?f])"
    by (rule frag_loop_pass_Break[OF f1 np]) simp
  finally have l: "frag_loop ex_Len ex_reply_padded ex_opt_hdr [] (Answer ex_reply_padded)
                     (Ns ex_reply_padded) [] [] = Break [?f, ?f]"
    by (simp add: ex_reply_padded_def)
  have fx: "fixup (length [?f, ?f]) 0 [?f, ?f]
              = Some [stamp ex_opt_hdr [] 2 0 ?f, stamp ex_opt_hdr [] 2 1 ?f]"
    by (simp add: fixup_frag_def stamp_def)
  show ?thesis
    unfolding frag_with_OPT[OF o] l by (simp only: loop_exit.simps fx)
qed

theorem fragments_fit_witness:
  "remove_edns0 (Extra (ex_reply 3)) = (Some (OPT ex_opt_hdr []), [])
   \<and> wire_len (new_frag (ex_reply 3) ex_opt_hdr []) = 36
   \<and> frag wire_len (ex_reply 3) = Some (ex_stamped 3)
   \<and> map wire_len (ex_stamped 3) = [289, 289, 289]
   \<and> remove_edns0 (Extra ex_reply_padded) = (Some (OPT ex_opt_hdr []), [])
   \<and> wire_len ex_reply_padded = 456
   \<and> ex_Len ex_reply_padded = 556
   \<and> map wire_len (the (frag ex_Len ex_reply_padded)) = [249, 249]"
proof -
  have o: "remove_edns0 (Extra (ex_reply 3)) = (Some (OPT ex_opt_hdr []), [])"
    by (simp add: ex_reply_def)
  have w: "wire_len (new_frag (ex_reply 3) ex_opt_hdr []) = 36"
    by (simp add: wire_len_def new_frag_def ex_reply_def ex_question_def ex_opt_hdr_def
        local_opt_def)
  then have w': "wire_len (new_frag (ex_reply 3) ex_opt_hdr []) \<le> 512"
    by simp
  have c: "\<forall>opt\<in>set ([]::edns0 list). Code opt = FRAG_CODE \<longrightarrow> length (Data opt) = 2"
    by simp
  have n: "\<forall>r\<in>set []. \<not> is_OPT r"
    by simp
  have a: "\<forall>m. wire_len m \<le> wire_len m"
    by simp
  have a': "\<forall>m. wire_len m \<le> ex_Len m"
    by (simp add: ex_Len_def)
  have f: "frag wire_len (ex_reply 3) = Some (ex_stamped 3)"
    using frag_ex_reply[of 2] by (simp add: numeral_3_eq_3)
  have l: "map wire_len (ex_stamped 3) = [289, 289, 289]"
    by (simp add: ex_stamped_3 stamp_def ex_frag_def new_frag_def wire_len_def ex_reply_def
        rr_len_ex_rr ex_question_def ex_opt_hdr_def local_opt_def fix_option_def)
  have o': "remove_edns0 (Extra ex_reply_padded) = (Some (OPT ex_opt_hdr []), [])"
    by (simp add: ex_reply_padded_def)
  have p: "wire_len (new_frag ex_reply_padded ex_opt_hdr []) \<le> 512"
    by (simp add: wire_len_def new_frag_def ex_reply_padded_def ex_question_def ex_opt_hdr_def
        local_opt_def)
  have q: "wire_len ex_reply_padded = 456" "ex_Len ex_reply_padded = 556"
    by (simp_all add: ex_Len_def wire_len_def ex_reply_padded_def rr_len_ex_rr ex_question_def
        ex_opt_hdr_def)
  have l': "map wire_len (the (frag ex_Len ex_reply_padded)) = [249, 249]"
    unfolding frag_ex_reply_padded
    by (simp add: stamp_def wire_len_def ex_reply_padded_def
        rr_len_ex_rr ex_question_def ex_opt_hdr_def local_opt_def fix_option_def)
  from fragments_fit[OF o n w' c a] fragments_fit[OF o' n p c a'] o w f l o' q l'
  show ?thesis
    by simp
qed

lemma frag_ex_reply_short: "frag wire_len ex_reply_short = Some [ex_short_frag]"
proof -
  let ?os = "[EDNS0_LOCAL FRAG_CODE []]"
  let ?f = "(new_frag ex_reply_short ex_opt_hdr ?os)\<lparr>Answer := [ex_rr 459]\<rparr>"
  have o: "remove_edns0 (Extra ex_reply_short) = (Some (OPT ex_opt_hdr ?os), [])"
    by (simp add: ex_reply_short_def)
  have ff: "fill_frag wire_len (new_frag ex_reply_short ex_opt_hdr ?os) [ex_rr 459] [] []
              = (?f, [], [], [])"
    by (simp add: fill_frag_def new_frag_def wire_len_def ex_reply_short_def rr_len_ex_rr
        ex_question_def ex_opt_hdr_def local_opt_def)
  have "frag_loop wire_len ex_reply_short ex_opt_hdr ?os [ex_rr 459] [] [] [] = Break [?f]"
    using frag_loop_pass_Break[OF ff, of "[]"] by simp
  then have "frag_loop wire_len ex_reply_short ex_opt_hdr ?os (Answer ex_reply_short)
               (Ns ex_reply_short) [] [] = Break [?f]"
    by (simp add: ex_reply_short_def)
  moreover have "fixup 1 0 [?f] = Some [ex_short_frag]"
    by (simp add: fixup_frag_def new_frag_def fix_option_def local_opt_def ex_short_frag_def
        ex_reply_short_def)
  ultimately show ?thesis
    by (simp add: frag_with_OPT[OF o])
qed

lemma frag_ex_reply_two_short: "frag wire_len ex_reply_two_short = Some [ex_two_short_frag]"
proof -
  let ?re = "[OPT ex_opt_hdr [EDNS0_LOCAL FRAG_CODE []]]"
  let ?f = "(new_frag ex_reply_two_short ex_opt_hdr [])
              \<lparr>Answer := [ex_rr 448], Extra := OPT ex_opt_hdr [local_opt] # ?re\<rparr>"
  have o: "remove_edns0 (Extra ex_reply_two_short) = (Some (OPT ex_opt_hdr []), ?re)"
    by (simp add: ex_reply_two_short_def)
  have ff: "fill_frag wire_len (new_frag ex_reply_two_short ex_opt_hdr []) [ex_rr 448] [] ?re
              = (?f, [], [], [])"
    by (simp add: fill_frag_def new_frag_def wire_len_def ex_reply_two_short_def rr_len_ex_rr
        ex_question_def ex_opt_hdr_def local_opt_def)
  have "frag_loop wire_len ex_reply_two_short ex_opt_hdr [] [ex_rr 448] [] ?re [] = Break [?f]"
    using frag_loop_pass_Break[OF ff, of "[]"] by simp
  then have "frag_loop wire_len ex_reply_two_short ex_opt_hdr [] (Answer ex_reply_two_short)
               (Ns ex_reply_two_short) ?re [] = Break [?f]"
    by (simp add: ex_reply_two_short_def)
  moreover have "fixup 1 0 [?f] = Some [ex_two_short_frag]"
    by (simp add: fixup_frag_def new_frag_def fix_option_def local_opt_def
        ex_two_short_frag_def ex_reply_two_short_def)
  ultimately show ?thesis
    by (simp add: frag_with_OPT[OF o])
qed

text \<open>
  The claim as the specification states it fails on two replies, in each of which the
  only answer record fits exactly, with 512 octets. In the first the OPT record carries
  an option with the fragment code and no data, and the fix-up writes two octets into
  that option as well. In the second, which has two OPT records, the fix-up goes to the
  last OPT record of the fragment and not to the copy: it writes two octets into the
  empty option of the second OPT record. Either fragment leaves with 514 octets.
\<close>

theorem fragments_fit_counterexample:
  "remove_edns0 (Extra ex_reply_short)
     = (Some (OPT ex_opt_hdr [EDNS0_LOCAL FRAG_CODE []]), [])
   \<and> wire_len ((new_frag ex_reply_short ex_opt_hdr [EDNS0_LOCAL FRAG_CODE []])
                  \<lparr>Answer := [ex_rr 459]\<rparr>) = 512
   \<and> frag wire_len ex_reply_short = Some [ex_short_frag]
   \<and> wire_len ex_short_frag = 514
   \<and> remove_edns0 (Extra ex_reply_two_short)
     = (Some (OPT ex_opt_hdr []), [OPT ex_opt_hdr [EDNS0_LOCAL FRAG_CODE []]])
   \<and> wire_len ((new_frag ex_reply_two_short ex_opt_hdr [])
                  \<lparr>Answer := [ex_rr 448],
                    Extra := [OPT ex_opt_hdr [local_opt],
                              OPT ex_opt_hdr [EDNS0_LOCAL FRAG_CODE []]]\<rparr>) = 512
   \<and> frag wire_len ex_reply_two_short = Some [ex_two_short_frag]
   \<and> wire_len ex_two_short_frag = 514"
proof -
  have w: "wire_len ((new_frag ex_reply_short ex_opt_hdr [EDNS0_LOCAL FRAG_CODE []])
                  \<lparr>Answer := [ex_rr 459]\<rparr>) = 512"
    by (simp add: new_frag_def wire_len_def ex_reply_short_def rr_len_ex_rr
        ex_question_def ex_opt_hdr_def local_opt_def)
  have l: "wire_len ex_short_frag = 514"
    by (simp add: ex_short_frag_def wire_len_def ex_reply_short_def rr_len_ex_rr
        ex_question_def ex_opt_hdr_def)
  have w': "wire_len ((new_frag ex_reply_two_short ex_opt_hdr [])
                  \<lparr>Answer := [ex_rr 448],
                    Extra := [OPT ex_opt_hdr [local_opt],
                              OPT ex_opt_hdr [EDNS0_LOCAL FRAG_CODE []]]\<rparr>) = 512"
    by (simp add: new_frag_def wire_len_def ex_reply_two_short_def rr_len_ex_rr
        ex_question_def ex_opt_hdr_def local_opt_def)
  have l': "wire_len ex_two_short_frag = 514"
    by (simp add: ex_two_short_frag_def wire_len_def ex_reply_two_short_def rr_len_ex_rr
        ex_question_def ex_opt_hdr_def)
  from w l w' l' frag_ex_reply_short frag_ex_reply_two_short show ?thesis
    by (simp add: ex_reply_short_def ex_reply_two_short_def)
qed

section \<open>What the client proxy delivers\<close>

lemma wait_for_response_Some:
  "wait_for_response request rds = (Some r, rest) \<Longrightarrow>
     Some r \<in> set rds \<and> MsgId (MsgHdr r) = MsgId (MsgHdr request) \<and> set rest \<subseteq> set rds"
proof (induction request rds rule: wait_for_response.induct)
  case (3 request response rds)
  show ?case
  proof (cases "MsgId (MsgHdr response) = MsgId (MsgHdr request)")
    case True
    with "3.prems" show ?thesis by auto
  next
    case False
    with "3.prems" have "wait_for_response request rds = (Some r, rest)"
      by simp
    from "3.IH"[OF False this] show ?thesis by auto
  qed
qed simp_all

lemma update_entries:
  "(i, f) \<in> set (AList.update k v al) \<Longrightarrow> (i, f) = (k, v) \<or> (i, f) \<in> set al"
  by (induction al) (auto split: if_splits)

lemma get_fragment_info_no_total:
  assumes "get_fragment_info m = Some (- 1, s)"
  shows "s = - 1"
proof (cases "IsEdns0 m")
  case None
  with assms show ?thesis
    by (simp add: get_fragment_info_def)
next
  case (Some p)
  obtain h os where "p = (h, os)" by (cases p)
  with Some assms have "scan_options os = Some (- 1, s)"
    by (simp add: get_fragment_info_def)
  then show ?thesis
  proof (induction os)
    case Nil
    then show ?case by simp
  next
    case (Cons opt os)
    have "uint d \<noteq> - 1" for d :: byte
      using uint_ge_0[of d] by linarith
    with Cons show ?case
      by (auto split: if_splits list.splits)
  qed
qed

text \<open>
  The collecting loop does not panic on responses whose descriptors can be read, and
  what it stores under a key is a response that was read and that carries that key as
  its sequence number.
\<close>

lemma collect_entries:
  assumes "\<forall>m. Some m \<in> set rds \<longrightarrow> get_fragment_info m \<noteq> None"
    and "\<forall>(i, f)\<in>set frags. Some f \<in> S \<and> seq_of f = i"
    and "set rds \<subseteq> S"
  shows "collect request num_frags frags rds = ReadFailed
         \<or> (\<exists>frags'. collect request num_frags frags rds = Frags frags'
               \<and> (\<forall>(i, f)\<in>set frags'. Some f \<in> S \<and> seq_of f = i))"
  using assms
proof (induction request num_frags frags rds rule: collect.induct)
  case (1 request num_frags frags rds)
  show ?case
  proof (cases "int (length frags) < num_frags")
    case False
    with "1.prems"(2) show ?thesis
      by (simp add: collect_done)
  next
    case less: True
    obtain r rest where w: "wait_for_response request rds = (r, rest)"
      by (cases "wait_for_response request rds")
    show ?thesis
    proof (cases r)
      case None
      with w less show ?thesis
        by (subst collect.simps) simp
    next
      case (Some response)
      with w have w': "wait_for_response request rds = (Some response, rest)"
        by simp
      from wait_for_response_Some[OF w'] have
        in_rds: "Some response \<in> set rds" and sub: "set rest \<subseteq> set rds"
        by simp_all
      from in_rds "1.prems"(1) obtain n s where i: "get_fragment_info response = Some (n, s)"
        by (cases "get_fragment_info response") auto
      then have s: "seq_of response = s"
        by (simp add: seq_of_def)
      have a: "\<forall>m. Some m \<in> set rest \<longrightarrow> get_fragment_info m \<noteq> None"
        using "1.prems"(1) sub by blast
      have b: "\<forall>(i, f)\<in>set (AList.update s response frags). Some f \<in> S \<and> seq_of f = i"
      proof (clarify)
        fix j f assume "(j, f) \<in> set (AList.update s response frags)"
        from update_entries[OF this] show "Some f \<in> S \<and> seq_of f = j"
        proof
          assume "(j, f) = (s, response)"
          with s in_rds "1.prems"(3) show ?thesis by auto
        next
          assume "(j, f) \<in> set frags"
          with "1.prems"(2) show ?thesis by auto
        qed
      qed
      have c: "set rest \<subseteq> S"
        using sub "1.prems"(3) by blast
      from "1.IH"[OF less w'[symmetric] refl i refl a b c] collect_step[OF less w' i]
      show ?thesis by simp
    qed
  qed
qed

lemma rebuild_loop_Some:
  "rebuild_loop frags ns m = Some r \<Longrightarrow>
     (\<forall>n\<in>set ns. map_of frags n \<noteq> None)
     \<and> r = foldl append_frag m (map (\<lambda>i. the (map_of frags i)) ns)"
  by (induction ns arbitrary: m) (auto split: option.splits)

lemma rebuild_Some:
  assumes "rebuild frags num_frags = Some r"
  shows "\<exists>f0. map_of frags 0 = Some f0
           \<and> (\<forall>i. 1 \<le> i \<and> i < num_frags \<longrightarrow> map_of frags i \<noteq> None)
           \<and> r = foldl append_frag f0 (map (\<lambda>i. the (map_of frags i)) [1..num_frags - 1])"
proof -
  from assms obtain f0 where f0: "map_of frags 0 = Some f0"
    and l: "rebuild_loop frags [1..num_frags - 1] f0 = Some r"
    by (auto simp: rebuild_def split: option.splits)
  from rebuild_loop_Some[OF l] f0 show ?thesis
    by auto
qed

text \<open>
  When the descriptor of every response that the upstream sends can be read, the handler
  writes exactly one message, and that message is \<^verbatim>\<open>SRVFAIL\<close>, or the first response
  as it is when it carries no descriptor, or a reply rebuilt from fragment 0 and every
  fragment from 1 to the total that the first response announces less one, each a
  response that was read and carries that sequence number, or that rebuilt reply with the
  TC flag set and its sections emptied.
\<close>

lemma client_delivers_cases:
  assumes "\<forall>m opt. Some m \<in> set (reads up) \<longrightarrow> frag_option m = Some opt
             \<longrightarrow> 2 \<le> length (Data opt)"
  shows "\<exists>m. ClientProxy_ServeDNS Len request up = Some [m]
           \<and> (m = SRVFAIL request
              \<or> (\<exists>rest. wait_for_response request (reads up) = (Some m, rest)
                    \<and> get_fragment_info m = Some (- 1, - 1))
              \<or> (\<exists>response rest total s frags f0.
                    wait_for_response request (reads up) = (Some response, rest)
                    \<and> get_fragment_info response = Some (total, s)
                    \<and> (\<forall>(i, f)\<in>set frags. Some f \<in> set (reads up) \<and> seq_of f = i)
                    \<and> map_of frags 0 = Some f0
                    \<and> (\<forall>i. 1 \<le> i \<and> i < total \<longrightarrow> map_of frags i \<noteq> None)
                    \<and> (m = foldl append_frag f0
                              (map (\<lambda>i. the (map_of frags i)) [1..total - 1])
                        \<or> m = tc_empty (foldl append_frag f0
                              (map (\<lambda>i. the (map_of frags i)) [1..total - 1])))))"
proof -
  have ok: "\<forall>m. Some m \<in> set (reads up) \<longrightarrow> get_fragment_info m \<noteq> None"
  proof (intro allI impI notI)
    fix m assume m: "Some m \<in> set (reads up)" and "get_fragment_info m = None"
    then obtain opt where "frag_option m = Some opt" "length (Data opt) < 2"
      unfolding get_fragment_info_panics by blast
    with assms m show False
      by fastforce
  qed
  show ?thesis
  proof (cases "dial_ok up \<and> write_ok up")
    case False
    then show ?thesis
      by (auto simp: ClientProxy_ServeDNS_def)
  next
    case up: True
    obtain r rest where w: "wait_for_response request (reads up) = (r, rest)"
      by (cases "wait_for_response request (reads up)")
    show ?thesis
    proof (cases r)
      case None
      with w up show ?thesis
        by (simp add: ClientProxy_ServeDNS_def reassemble_def)
    next
      case (Some response)
      with w have w': "wait_for_response request (reads up) = (Some response, rest)"
        by simp
      from wait_for_response_Some[OF w'] have
        in_rds: "Some response \<in> set (reads up)" and sub: "set rest \<subseteq> set (reads up)"
        by simp_all
      from in_rds ok obtain total s where i: "get_fragment_info response = Some (total, s)"
        by (cases "get_fragment_info response") auto
      show ?thesis
      proof (cases "total = - 1")
        case True
        with i get_fragment_info_no_total[of response s] have "get_fragment_info response = Some (- 1, - 1)"
          by simp
        with w' up True i show ?thesis
          by (simp add: ClientProxy_ServeDNS_def reassemble_def)
      next
        case frag: False
        have a: "\<forall>m. Some m \<in> set rest \<longrightarrow> get_fragment_info m \<noteq> None"
          using ok sub by blast
        have b: "\<forall>(j, f)\<in>set [(s, response)]. Some f \<in> set (reads up) \<and> seq_of f = j"
          using in_rds i by (simp add: seq_of_def)
        from collect_entries[OF a b sub, of request total]
        show ?thesis
        proof (elim disjE exE conjE)
          assume "collect request total [(s, response)] rest = ReadFailed"
          with w' up i frag show ?thesis
            by (simp add: ClientProxy_ServeDNS_def reassemble_def)
        next
          fix frags
          assume c: "collect request total [(s, response)] rest = Frags frags"
            and e: "\<forall>(j, f)\<in>set frags. Some f \<in> set (reads up) \<and> seq_of f = j"
          show ?thesis
          proof (cases "rebuild frags total")
            case None
            with c w' up i frag show ?thesis
              by (simp add: ClientProxy_ServeDNS_def reassemble_def)
          next
            case (Some rebuilt)
            from rebuild_Some[OF Some] obtain f0 where
              f0: "map_of frags 0 = Some f0"
              and all: "\<forall>i. 1 \<le> i \<and> i < total \<longrightarrow> map_of frags i \<noteq> None"
              and r: "rebuilt = foldl append_frag f0
                                  (map (\<lambda>i. the (map_of frags i)) [1..total - 1])"
              by blast
            have d: "ClientProxy_ServeDNS Len request up
                       = Some [enforce_buf Len (client_buf_size request) rebuilt]"
              using Some c w' up i frag by (simp add: ClientProxy_ServeDNS_def reassemble_def)
            have "enforce_buf Len (client_buf_size request) rebuilt = rebuilt
                  \<or> enforce_buf Len (client_buf_size request) rebuilt = tc_empty rebuilt"
              by (simp add: enforce_buf_def)
            then have "\<exists>response rest total s frags f0.
                    wait_for_response request (reads up) = (Some response, rest)
                    \<and> get_fragment_info response = Some (total, s)
                    \<and> (\<forall>(i, f)\<in>set frags. Some f \<in> set (reads up) \<and> seq_of f = i)
                    \<and> map_of frags 0 = Some f0
                    \<and> (\<forall>i. 1 \<le> i \<and> i < total \<longrightarrow> map_of frags i \<noteq> None)
                    \<and> (enforce_buf Len (client_buf_size request) rebuilt
                          = foldl append_frag f0
                              (map (\<lambda>i. the (map_of frags i)) [1..total - 1])
                        \<or> enforce_buf Len (client_buf_size request) rebuilt
                          = tc_empty (foldl append_frag f0
                              (map (\<lambda>i. the (map_of frags i)) [1..total - 1])))"
              unfolding r using w' i e f0 all by blast
            with d show ?thesis
              by blast
          qed
        qed
      qed
    qed
  qed
qed

text \<open>
  Claim C10 fails in the code, on two sequences of responses. A response whose fragment
  option has one data octet makes the handler panic at \<^verbatim>\<open>Data[1]\<close>: it writes nothing,
  which is none of the four outcomes. And the 256 fragments of the reply with 256 answer
  records all announce the total 0: the handler takes the first of them for the whole
  reply and writes it as it is, one answer record out of 256, neither truncated nor
  \<^verbatim>\<open>SRVFAIL\<close>.
\<close>

theorem client_delivers_part_or_nothing:
  "MsgId (MsgHdr ex_bad_response) = MsgId (MsgHdr ex_query)
   \<and> Extra ex_bad_response = [OPT ex_opt_hdr [EDNS0_LOCAL FRAG_CODE [2]]]
   \<and> ClientProxy_ServeDNS Len ex_query (ex_up [Some ex_bad_response]) = None
   \<and> frag wire_len (ex_reply 256) = Some (ex_stamped 256)
   \<and> length (ex_stamped 256) = 256
   \<and> ClientProxy_ServeDNS wire_len ex_query (ex_up (map Some (ex_stamped 256)))
       = Some [ex_stamped 256 ! 0]
   \<and> Answer (ex_stamped 256 ! 0) = [ex_rr 240]
   \<and> Truncated (MsgHdr (ex_stamped 256 ! 0)) = False
   \<and> Rcode (MsgHdr (ex_stamped 256 ! 0)) = 0
   \<and> length (Answer (ex_reply 256)) = 256"
proof -
  have i: "MsgId (MsgHdr ex_bad_response) = MsgId (MsgHdr ex_query)"
    by (simp add: ex_bad_response_def ex_query_def)
  have e: "Extra ex_bad_response = [OPT ex_opt_hdr [EDNS0_LOCAL FRAG_CODE [2]]]"
    by (simp add: ex_bad_response_def)
  have g: "get_fragment_info ex_bad_response = None"
    by (simp add: get_fragment_info_def ex_bad_response_def IsEdns0_def FRAG_CODE_def)
  from i g have p: "ClientProxy_ServeDNS Len ex_query (ex_up [Some ex_bad_response]) = None"
    by (simp add: ClientProxy_ServeDNS_def ex_up_def reassemble_def)
  have f: "frag wire_len (ex_reply 256) = Some (ex_stamped 256)"
    using frag_ex_reply[of 255] by simp
  have l: "length (ex_stamped 256) = 256"
    by (simp add: ex_stamped_def)
  have b: "client_buf_size ex_query = 512"
    by (simp add: client_buf_size_def ex_query_def IsEdns0_def)
  have w: "wire_len (ex_stamped 256 ! 0) = 289"
    by (simp add: ex_stamped_nth stamp_def ex_frag_def new_frag_def wire_len_def ex_reply_def
        rr_len_ex_rr ex_question_def ex_opt_hdr_def local_opt_def fix_option_def)
  have d: "ClientProxy_ServeDNS wire_len ex_query (ex_up (map Some (ex_stamped 256)))
             = Some [ex_stamped 256 ! 0]"
    by (simp add: ClientProxy_ServeDNS_def ex_up_def ex_reassemble_256 enforce_buf_def b w)
  have a: "Answer (ex_stamped 256 ! 0) = [ex_rr 240]
           \<and> Truncated (MsgHdr (ex_stamped 256 ! 0)) = False
           \<and> Rcode (MsgHdr (ex_stamped 256 ! 0)) = 0"
    by (simp add: ex_stamped_nth stamp_def ex_frag_def new_frag_def ex_reply_def ex_hdr_def)
  have c: "length (Answer (ex_reply 256)) = 256"
    by (simp add: ex_reply_def)
  from i e p f l d a c show ?thesis
    by simp
qed

end
